theory Spec2Isabelle
  imports Main
begin

section \<open>JavaScript values\<close>

text \<open>
  The values that travel through \<^verbatim>\<open>src/stores/eth/contracts.js\<close> as call arguments,
  override objects and the override configuration. An object is the list of its own
  properties in insertion order; numbers are only compared and passed on, so the
  integers stand for them.
\<close>

datatype jsval =
    JUndefined
  | JNull
  | JBool bool
  | JNum int
  | JStr string
  | JArr "jsval list"
  | JObj "(string \<times> jsval) list"

text \<open>\<^verbatim>\<open>!!v\<close>\<close>

fun truthy :: "jsval \<Rightarrow> bool" where
  "truthy JUndefined = False"
| "truthy JNull = False"
| "truthy (JBool b) = b"
| "truthy (JNum n) = (n \<noteq> 0)"
| "truthy (JStr s) = (s \<noteq> [])"
| "truthy (JArr xs) = True"
| "truthy (JObj kvs) = True"

text \<open>\<^verbatim>\<open>isPOJO\<close> of \<^verbatim>\<open>@pie-dao/utils\<close>: a plain object, nothing else.\<close>

fun isPOJO :: "jsval \<Rightarrow> bool" where
  "isPOJO (JObj kvs) = True"
| "isPOJO v = False"

text \<open>\<^verbatim>\<open>o[k]\<close>: a property that is not there reads as \<^verbatim>\<open>undefined\<close>.\<close>

fun getProp :: "jsval \<Rightarrow> string \<Rightarrow> jsval" where
  "getProp (JObj kvs) k = (case map_of kvs k of Some v \<Rightarrow> v | None \<Rightarrow> JUndefined)"
| "getProp v k = JUndefined"

text \<open>\<^verbatim>\<open>o[k] = v\<close> on the property list: an existing key keeps its place.\<close>

fun setProp :: "string \<Rightarrow> jsval \<Rightarrow> (string \<times> jsval) list \<Rightarrow> (string \<times> jsval) list" where
  "setProp k v [] = [(k, v)]"
| "setProp k v ((k', v') # kvs) =
     (if k = k' then (k, v) # kvs else (k', v') # setProp k v kvs)"

text \<open>Decimal rendering of an index, for the keys of a spread array or string.\<close>

definition digitChar :: "nat \<Rightarrow> char" where
  "digitChar d = ''0123456789'' ! d"

fun showNat :: "nat \<Rightarrow> string" where
  "showNat n = (if n < 10 then [digitChar n] else showNat (n div 10) @ [digitChar (n mod 10)])"

text \<open>
  The own enumerable properties an object spread \<^verbatim>\<open>{...v}\<close> copies: those of an
  object, the indexed elements of an array or a string, none for anything else.
\<close>

fun ownProps :: "jsval \<Rightarrow> (string \<times> jsval) list" where
  "ownProps (JObj kvs) = kvs"
| "ownProps (JArr xs) = zip (map showNat [0..<length xs]) xs"
| "ownProps (JStr s) = zip (map showNat [0..<length s]) (map (\<lambda>c. JStr [c]) s)"
| "ownProps v = []"

text \<open>\<^verbatim>\<open>{...a, ...b}\<close>: the properties of \<open>a\<close>, then those of \<open>b\<close> written over them.\<close>

definition assignProps :: "(string \<times> jsval) list \<Rightarrow> (string \<times> jsval) list \<Rightarrow> (string \<times> jsval) list" where
  "assignProps target src = foldl (\<lambda>acc kv. setProp (fst kv) (snd kv) acc) target src"

definition spread1 :: "jsval \<Rightarrow> jsval" where
  "spread1 a = JObj (assignProps [] (ownProps a))"

definition spread2 :: "jsval \<Rightarrow> jsval \<Rightarrow> jsval" where
  "spread2 a b = JObj (assignProps (assignProps [] (ownProps a)) (ownProps b))"

text \<open>
  \<^verbatim>\<open>args[i]\<close> and \<^verbatim>\<open>args[i] = v\<close> on an argument array. Reading past the end gives
  \<^verbatim>\<open>undefined\<close>; writing past the end extends the array, and the holes it leaves
  are \<^verbatim>\<open>undefined\<close> when the array is spread into a call.
\<close>

definition arrayGet :: "jsval list \<Rightarrow> nat \<Rightarrow> jsval" where
  "arrayGet xs i = (if i < length xs then xs ! i else JUndefined)"

definition arraySet :: "jsval list \<Rightarrow> nat \<Rightarrow> jsval \<Rightarrow> jsval list" where
  "arraySet xs i v =
     (if i < length xs then xs[i := v]
      else xs @ replicate (i - length xs) JUndefined @ [v])"

text \<open>\<^verbatim>\<open>String.prototype.toLowerCase\<close> on the ASCII letters an address is written in.\<close>

definition lowerChar :: "char \<Rightarrow> char" where
  "lowerChar c =
     (case map_of (zip ''ABCDEFGHIJKLMNOPQRSTUVWXYZ'' ''abcdefghijklmnopqrstuvwxyz'') c of
        Some d \<Rightarrow> d
      | None \<Rightarrow> c)"

definition toLowerCase :: "string \<Rightarrow> string" where
  "toLowerCase s = map lowerChar s"

section \<open>The contract binding\<close>

text \<open>
  What the module reads of an \<^verbatim>\<open>ethers.Contract\<close>: its \<^verbatim>\<open>address\<close>, the
  fragments of its \<^verbatim>\<open>interface\<close> (each with a \<^verbatim>\<open>name\<close> and its \<^verbatim>\<open>inputs\<close>), the
  provider or signer it was constructed against, which property keys \<^verbatim>\<open>contract[prop]\<close>
  finds a member under, and the keys of \<^verbatim>\<open>contract.functions\<close> (\<open>functionKeys\<close>). An ABI is its list of
  fragments. Which members a binding has is decided by the library that constructs it
  (bare names, full signatures, members that are no contract function at all), so the
  member table and the keys of \<^verbatim>\<open>functions\<close> are data of the binding here, and the
  constructor that fills them is a collaborator of the module.
\<close>

datatype fragmentType = Function | Event | Constructor

record fragment =
  ftype :: fragmentType
  name :: string
  inputs :: "string list"

type_synonym abi = "fragment list"

datatype memberType = Callable | Data

record contract =
  address :: string
  interface :: abi
  signerOrProvider :: string
  members :: "(string \<times> memberType) list"
  functionKeys :: "string list"

text \<open>
  \<^verbatim>\<open>contract[prop]\<close> as a condition: the binding has a member under the key \<open>prop\<close>.
  The members in the table are the truthy ones.
\<close>

definition hasMember :: "contract \<Rightarrow> string \<Rightarrow> bool" where
  "hasMember c prop = (map_of (members c) prop \<noteq> None)"

text \<open>
  The callables of the binding and one call of them. \<open>FunctionsMember c f\<close> is
  \<^verbatim>\<open>c.functions[f]\<close>, which the module keeps unbound as \<^verbatim>\<open>rawFunction\<close>;
  \<open>Bound r c\<close> is \<^verbatim>\<open>r.bind(c)\<close>; \<open>Method c f\<close> is \<^verbatim>\<open>c[f]\<close>.
\<close>

datatype rawFn = FunctionsMember contract string

datatype callable = Method contract string | Bound rawFn contract

record invocation =
  callee :: callable
  arguments :: "jsval list"

datatype error =
    InvalidAddress string
  | FunctionNotFound string string
  | ReferenceError string
  | TypeError

text \<open>
  \<^verbatim>\<open>contract[prop](...args)\<close>: the call of a member of the binding; calling a member
  that is not there, or one that is no function, is a \<^verbatim>\<open>TypeError\<close>.
\<close>

definition callMethod :: "contract \<Rightarrow> string \<Rightarrow> jsval list \<Rightarrow> error + invocation" where
  "callMethod c prop passedArgs =
     (case map_of (members c) prop of
        Some Callable \<Rightarrow> Inr \<lparr> callee = Method c prop, arguments = passedArgs \<rparr>
      | _ \<Rightarrow> Inl TypeError)"

section \<open>Override registry and override injection\<close>

text \<open>
  \<^verbatim>\<open>contractOverrides.json\<close> is configuration outside the source file: the functions
  below take its parsed value as the parameter \<open>contractOverrides\<close>.
\<close>

definition expectedArgLength :: "string \<Rightarrow> contract \<Rightarrow> error + nat" where
  "expectedArgLength functionName c =
     (case find (\<lambda>f. name f = functionName) (interface c) of
        None \<Rightarrow> Inl (FunctionNotFound functionName (address c))
      | Some definition \<Rightarrow> Inr (length (inputs definition)))"

definition getOverrides :: "jsval \<Rightarrow> string \<Rightarrow> contract \<Rightarrow> jsval" where
  "getOverrides contractOverrides functionName c =
     (let addy = toLowerCase (address c)
      in if isPOJO (getProp contractOverrides addy)
         then getProp (getProp contractOverrides addy) functionName
         else JUndefined)"

definition hasOverrides :: "jsval \<Rightarrow> string \<Rightarrow> contract \<Rightarrow> bool" where
  "hasOverrides contractOverrides functionName c =
     truthy (getOverrides contractOverrides functionName c)"

text \<open>
  \<^verbatim>\<open>overrideWrapped(prop, contract)(...passedArgs)\<close>. The result is the call it makes
  on the binding, \<^verbatim>\<open>contract[prop](...args)\<close>, or the exception it throws. The guard
  is \<^verbatim>\<open>position < args.length\<close>; the message of its \<^verbatim>\<open>throw\<close> interpolates
  \<^verbatim>\<open>address\<close>, a name that is bound nowhere in the module, so evaluating the message
  raises a \<^verbatim>\<open>ReferenceError\<close> before the \<^verbatim>\<open>Error\<close> is constructed.
\<close>

definition overrideWrapped :: "jsval \<Rightarrow> string \<Rightarrow> contract \<Rightarrow> jsval list \<Rightarrow> error + invocation" where
  "overrideWrapped contractOverrides prop c passedArgs =
     (case expectedArgLength prop c of
        Inl e \<Rightarrow> Inl e
      | Inr position \<Rightarrow>
          if position < length passedArgs then Inl (ReferenceError ''address'')
          else
            let slot =
                  (if isPOJO (arrayGet passedArgs position)
                   then spread2 (getOverrides contractOverrides prop c) (arrayGet passedArgs position)
                   else spread1 (getOverrides contractOverrides prop c))
            in callMethod c prop (arraySet passedArgs position slot))"

section \<open>Module state and external collaborators\<close>

text \<open>
  What the module imports and does not define: address validation, the ABI lookup
  (\<open>Inl\<close> is the reason of a rejected lookup), the built-in erc20 ABI, the members
  and the keys of \<^verbatim>\<open>functions\<close> that \<^verbatim>\<open>new ethers.Contract\<close> gives a binding of an
  ABI, the key codec of \<^verbatim>\<open>./keys\<close>, the override configuration, the answer of the
  chain to a call made at a given time (\<open>None\<close> is a rejected promise), and the
  \<^verbatim>\<open>toString\<close> of a balance.
\<close>

record env =
  isAddress :: "string \<Rightarrow> bool"
  findAbi :: "string \<Rightarrow> jsval + abi"
  erc20 :: abi
  bindingMembers :: "abi \<Rightarrow> (string \<times> memberType) list"
  bindingFunctions :: "abi \<Rightarrow> string list"
  balanceKey :: "string \<Rightarrow> string \<Rightarrow> string"
  functionKey :: "string \<Rightarrow> string \<Rightarrow> jsval list \<Rightarrow> jsval \<Rightarrow> string"
  overridesJson :: jsval
  chain :: "nat \<Rightarrow> invocation \<Rightarrow> jsval option"
  toString :: "jsval \<Rightarrow> string"

text \<open>
  A handle is the \<^verbatim>\<open>Proxy\<close> that \<^verbatim>\<open>observableContract\<close> returns. Two proxies are
  the same object exactly when they come from the same \<^verbatim>\<open>new Proxy\<close>, which
  \<open>proxyId\<close> records; everything the handler closes over is determined by the
  binding \<open>raw\<close>.
\<close>

record handle =
  proxyId :: nat
  raw :: contract

record entry =
  contractAddress :: string
  rawFunction :: rawFn
  args :: "jsval list"
  overrides :: jsval

record ethStore =
  provider :: string
  signer :: "string option"

datatype level = LogL | WarnL | ErrorL

datatype effect =
    Console level "jsval list"
  | Called invocation
  | Published string jsval

text \<open>
  The module's variables \<^verbatim>\<open>contracts\<close>, \<^verbatim>\<open>trackedBalances\<close> (a \<^verbatim>\<open>Set\<close>, in
  insertion order), \<^verbatim>\<open>trackedFunctions\<close> (an object, its keys in insertion order)
  and \<^verbatim>\<open>blockNumberPid\<close> (\<^verbatim>\<open>[0]\<close> at start, so its timer is absent); the
  \<^verbatim>\<open>eth\<close> store; and the world around them: the pending timeouts with their due
  times, the clock in milliseconds, and the trace of what the module did to the
  console, to the binding and to the streams of \<^verbatim>\<open>subject\<close>.
\<close>

record state =
  contracts :: "string \<rightharpoonup> handle"
  trackedBalances :: "string list"
  trackedFunctions :: "(string \<times> entry) list"
  blockNumberPid :: "int \<times> nat option"
  eth :: ethStore
  nextProxy :: nat
  timers :: "(nat \<times> nat) list"
  nextTimer :: nat
  now :: nat
  trace :: "effect list"

definition emit :: "effect \<Rightarrow> state \<Rightarrow> state" where
  "emit e s = s\<lparr>trace := trace s @ [e]\<rparr>"

text \<open>
  \<^verbatim>\<open>f(...).then((...results) => subject(key).next(...results))\<close>: the call is made,
  and its result is published on the stream of \<open>key\<close> if the promise resolves. The
  model runs each asynchronous function to its end where the source starts it.
\<close>

definition callAndPublish :: "env \<Rightarrow> string \<Rightarrow> (jsval \<Rightarrow> jsval) \<Rightarrow> invocation \<Rightarrow> state \<Rightarrow> state" where
  "callAndPublish E key post call s =
     (case chain E (now s) call of
        None \<Rightarrow> emit (Called call) s
      | Some v \<Rightarrow> emit (Published key (post v)) (emit (Called call) s))"

section \<open>The handle cache\<close>

text \<open>
  \<^verbatim>\<open>observableContract\<close> is asynchronous. Without an ABI and without a cached handle
  it suspends at \<^verbatim>\<open>await findAbi(address)\<close>, after the test of the cache and before
  the write to it, and other code of the module may run before it resumes. The
  translation has the two pieces: \<open>observableContractStart\<close> runs to the return or to
  that suspension, \<open>observableContractResume\<close> runs from the settled lookup to the
  return. \<open>newProxy\<close> is the part both share, from \<^verbatim>\<open>get(eth)\<close> to the end, with
  \<open>cacheIt\<close> for \<^verbatim>\<open>!abi\<close>.
\<close>

datatype started = Returned handle | AwaitingAbi

definition newProxy :: "env \<Rightarrow> bool \<Rightarrow> abi \<Rightarrow> string \<Rightarrow> state \<Rightarrow> handle \<times> state" where
  "newProxy E cacheIt contractAbi addr s =
     (let c = \<lparr> address = addr, interface = contractAbi,
                signerOrProvider =
                  (case signer (eth s) of Some sg \<Rightarrow> sg | None \<Rightarrow> provider (eth s)),
                members = bindingMembers E contractAbi,
                functionKeys = bindingFunctions E contractAbi \<rparr>;
          proxy = \<lparr> proxyId = nextProxy s, raw = c \<rparr>;
          s2 = s\<lparr>nextProxy := Suc (nextProxy s)\<rparr>
      in if cacheIt then (proxy, s2\<lparr>contracts := (contracts s2)(addr \<mapsto> proxy)\<rparr>)
         else (proxy, s2))"

definition observableContractStart ::
  "env \<Rightarrow> abi option \<Rightarrow> string \<Rightarrow> state \<Rightarrow> error + started \<times> state" where
  "observableContractStart E abiArg addr s =
     (if \<not> isAddress E addr then Inl (InvalidAddress addr)
      else
        case (contracts s addr, abiArg) of
          (Some cached, None) \<Rightarrow> Inr (Returned cached, s)
        | (_, Some a) \<Rightarrow> (let (proxy, s') = newProxy E False a addr s in Inr (Returned proxy, s'))
        | (None, None) \<Rightarrow> Inr (AwaitingAbi, s))"

definition observableContractResume :: "env \<Rightarrow> string \<Rightarrow> state \<Rightarrow> handle \<times> state" where
  "observableContractResume E addr s =
     (case findAbi E addr of
        Inr a \<Rightarrow> newProxy E True a addr s
      | Inl e \<Rightarrow>
          newProxy E True (erc20 E) addr
            (emit (Console WarnL [JStr ''Falling back on default erc20 abi for'', JStr addr])
               (emit (Console ErrorL [e]) s)))"

text \<open>A call of \<^verbatim>\<open>observableContract\<close> during which nothing else runs.\<close>

definition observableContract :: "env \<Rightarrow> abi option \<Rightarrow> string \<Rightarrow> state \<Rightarrow> error + handle \<times> state" where
  "observableContract E abiArg addr s =
     (case observableContractStart E abiArg addr s of
        Inl e \<Rightarrow> Inl e
      | Inr (Returned h, s1) \<Rightarrow> Inr (h, s1)
      | Inr (AwaitingAbi, s1) \<Rightarrow> Inr (observableContractResume E addr s1))"

definition resetContractCache :: "state \<Rightarrow> state" where
  "resetContractCache s = s\<lparr>contracts := Map.empty\<rparr>"

section \<open>The handler of the proxy\<close>

text \<open>
  What a property read on a handle gives: one of the three addons, the
  override-wrapped form of a member of the binding, the member itself, or
  \<^verbatim>\<open>undefined\<close> from the empty target. An entry \<open>(a, f, r)\<close> of the functions map is
  \<^verbatim>\<open>generateTrackableFunction(a, f, r)\<close>.
\<close>

datatype member =
    RawBinding contract
  | TrackBalanceFn string
  | Functions "(string \<times> string \<times> string \<times> rawFn) list"
  | OverrideWrappedFn string contract
  | ContractMember contract string
  | Undefined

definition addonFunctions :: "contract \<Rightarrow> (string \<times> string \<times> string \<times> rawFn) list" where
  "addonFunctions c =
     map (\<lambda>functionName. (functionName, address c, functionName, FunctionsMember c functionName))
       (functionKeys c)"

definition handlerGet :: "jsval \<Rightarrow> handle \<Rightarrow> string \<Rightarrow> member" where
  "handlerGet contractOverrides h prop =
     (let c = raw h
      in if prop = ''raw'' then RawBinding c
         else if prop = ''trackBalance'' then TrackBalanceFn (address c)
         else if prop = ''functions'' then Functions (addonFunctions c)
         else if hasMember c prop \<and> hasOverrides contractOverrides prop c
           then OverrideWrappedFn prop c
         else if hasMember c prop then ContractMember c prop
         else Undefined)"

text \<open>
  Calling, with \<open>passedArgs\<close>, what a property read gave: the override-wrapped form
  runs \<open>overrideWrapped\<close>, a member of the binding is called as it is. The addons
  are not members of the binding: the trackable functions and the balance tracker
  have their own definitions below, and \<open>None\<close> stands for calling what is not a
  function.
\<close>

definition callMember :: "jsval \<Rightarrow> member \<Rightarrow> jsval list \<Rightarrow> (error + invocation) option" where
  "callMember contractOverrides m passedArgs =
     (case m of
        OverrideWrappedFn prop c \<Rightarrow> Some (overrideWrapped contractOverrides prop c passedArgs)
      | ContractMember c prop \<Rightarrow> Some (callMethod c prop passedArgs)
      | _ \<Rightarrow> None)"

section \<open>Trackable functions\<close>

text \<open>
  \<^verbatim>\<open>generateTrackableFunction(contractAddress, functionName, rawFunction)(...args)\<close>.
  It reads the binding from the shared cache, calls \<^verbatim>\<open>rawFunction\<close> bound to it, and
  returns the promise with \<^verbatim>\<open>track\<close> attached; the binding it read is what
  \<^verbatim>\<open>track\<close> closes over, so the model returns it. Reading \<^verbatim>\<open>.raw\<close> of a missing
  cache entry is a \<^verbatim>\<open>TypeError\<close>.
\<close>

definition generateTrackableFunction ::
  "string \<Rightarrow> string \<Rightarrow> rawFn \<Rightarrow> jsval list \<Rightarrow> state \<Rightarrow> error + contract \<times> state" where
  "generateTrackableFunction contractAddress' functionName rawFunction' passedArgs s =
     (case contracts s contractAddress' of
        None \<Rightarrow> Inl TypeError
      | Some h \<Rightarrow>
          let c = raw h
          in Inr (c, emit (Called \<lparr> callee = Bound rawFunction' c, arguments = passedArgs \<rparr>) s))"

text \<open>\<^verbatim>\<open>trackedFunctions[key] = e\<close>\<close>

fun setEntry :: "string \<Rightarrow> entry \<Rightarrow> (string \<times> entry) list \<Rightarrow> (string \<times> entry) list" where
  "setEntry k e [] = [(k, e)]"
| "setEntry k e ((k', e') # kes) =
     (if k = k' then (k, e) # kes else (k', e') # setEntry k e kes)"

text \<open>
  \<^verbatim>\<open>trackable.track(callerOverrides = {})\<close>, in the closure of a trackable call made
  with \<open>passedArgs\<close> on the binding \<open>c\<close>. The result is the key whose stream
  \<^verbatim>\<open>subject(key)\<close> it returns.
\<close>

definition track ::
  "env \<Rightarrow> string \<Rightarrow> string \<Rightarrow> rawFn \<Rightarrow> jsval list \<Rightarrow> contract \<Rightarrow> jsval \<Rightarrow> state \<Rightarrow> string \<times> state" where
  "track E contractAddress' functionName rawFunction' passedArgs c callerOverridesArg s =
     (let callerOverrides = (if callerOverridesArg = JUndefined then JObj [] else callerOverridesArg);
          key = functionKey E contractAddress' functionName passedArgs callerOverrides;
          overrides' =
            (if hasOverrides (overridesJson E) functionName c
             then spread2 (getOverrides (overridesJson E) functionName c) callerOverrides
             else callerOverrides);
          s1 = s\<lparr>trackedFunctions :=
                   setEntry key
                     \<lparr> contractAddress = contractAddress', rawFunction = rawFunction',
                       args = passedArgs, overrides = overrides' \<rparr>
                     (trackedFunctions s)\<rparr>
      in (key,
          callAndPublish E key (\<lambda>v. v)
            \<lparr> callee = Bound rawFunction' c, arguments = passedArgs @ [overrides'] \<rparr> s1))"

text \<open>
  \<^verbatim>\<open>generateTrackBalanceFunction(contractAddress)(account)\<close>. The key is added to the
  set before the handle is awaited, so the state is returned beside the result also
  when the function throws. \<^verbatim>\<open>contract.balanceOf\<close> is read on the proxy, through
  its handler.
\<close>

definition generateTrackBalanceFunction ::
  "env \<Rightarrow> string \<Rightarrow> string \<Rightarrow> state \<Rightarrow> (error + string) \<times> state" where
  "generateTrackBalanceFunction E contractAddress' account s =
     (if \<not> isAddress E account then (Inl (InvalidAddress account), s)
      else
        let key = balanceKey E contractAddress' account;
            s1 = s\<lparr>trackedBalances :=
                     (if key \<in> set (trackedBalances s) then trackedBalances s
                      else trackedBalances s @ [key])\<rparr>
        in case observableContract E (Some (erc20 E)) contractAddress' s1 of
             Inl e \<Rightarrow> (Inl e, s1)
           | Inr (h, s2) \<Rightarrow>
               (case callMember (overridesJson E) (handlerGet (overridesJson E) h ''balanceOf'')
                       [JStr account] of
                  None \<Rightarrow> (Inl TypeError, s2)
                | Some (Inl e) \<Rightarrow> (Inl e, s2)
                | Some (Inr call) \<Rightarrow>
                    (Inr key, callAndPublish E key (\<lambda>balance. JStr (toString E balance)) call s2)))"

section \<open>The refresh cycle\<close>

text \<open>\<^verbatim>\<open>key.split(".")\<close>\<close>

fun splitOn :: "char \<Rightarrow> string \<Rightarrow> string list" where
  "splitOn sep [] = [[]]"
| "splitOn sep (x # xs) =
     (if x = sep then [] # splitOn sep xs
      else case splitOn sep xs of p # ps \<Rightarrow> (x # p) # ps | [] \<Rightarrow> [[x]])"

definition invalidKeyWarnings :: "string \<Rightarrow> effect list" where
  "invalidKeyWarnings key =
     [Console WarnL [JStr ''Invalid key found in trackedBalances'', JStr key],
      Console WarnL
        [JStr (''key should be formatted '' @ [CHR 0x27] @ ''[token address].[wallet address]''
               @ [CHR 0x27])]]"

text \<open>
  The body of \<^verbatim>\<open>trackedBalances.forEach\<close> for one key. A key without a second
  component leaves \<^verbatim>\<open>account\<close> undefined, which is no address. A rejection inside
  the asynchronous body ends that body only.
\<close>

definition refreshBalance :: "env \<Rightarrow> state \<Rightarrow> string \<Rightarrow> state" where
  "refreshBalance E s key =
     (case splitOn CHR ''.'' key of
        token # account # rest \<Rightarrow>
          if isAddress E token \<and> isAddress E account then
            (case observableContract E (Some (erc20 E)) token s of
               Inl e \<Rightarrow> s
             | Inr (h, s1) \<Rightarrow>
                 (case callMethod (raw h) ''balanceOf'' [JStr account] of
                    Inl e \<Rightarrow> s1
                  | Inr call \<Rightarrow>
                      callAndPublish E key (\<lambda>balance. JStr (toString E balance)) call s1))
          else s\<lparr>trace := trace s @ invalidKeyWarnings key\<rparr>
      | _ \<Rightarrow> s\<lparr>trace := trace s @ invalidKeyWarnings key\<rparr>)"

text \<open>The body of \<^verbatim>\<open>Object.keys(trackedFunctions).forEach\<close> for one key.\<close>

definition refreshFunction :: "env \<Rightarrow> state \<Rightarrow> string \<Rightarrow> state" where
  "refreshFunction E s key =
     (case map_of (trackedFunctions s) key of
        None \<Rightarrow> s
      | Some e \<Rightarrow>
          (case observableContract E None (contractAddress e) s of
             Inl err \<Rightarrow> s
           | Inr (h, s1) \<Rightarrow>
               callAndPublish E key (\<lambda>v. v)
                 \<lparr> callee = Bound (rawFunction e) (raw h), arguments = args e @ [overrides e] \<rparr> s1))"

definition refreshStart :: "nat \<Rightarrow> effect" where
  "refreshStart t = Console LogL [JStr ''running balance update'', JNum (int t)]"

definition updateOnBlock :: "env \<Rightarrow> state \<Rightarrow> state" where
  "updateOnBlock E s =
     (let s0 = emit (refreshStart (now s)) s;
          s1 = foldl (refreshBalance E) s0 (trackedBalances s0)
      in foldl (refreshFunction E) s1 (map fst (trackedFunctions s1)))"

section \<open>The scheduler\<close>

text \<open>
  \<^verbatim>\<open>clearTimeout\<close> and \<^verbatim>\<open>setTimeout(updateOnBlock, delay)\<close> on the pending
  timeouts: every timeout of the module runs \<^verbatim>\<open>updateOnBlock\<close>, so a timeout is its
  identifier and the time it is due.
\<close>

definition clearTimeout :: "nat option \<Rightarrow> state \<Rightarrow> state" where
  "clearTimeout pid s =
     (case pid of
        None \<Rightarrow> s
      | Some t \<Rightarrow> s\<lparr>timers := filter (\<lambda>p. fst p \<noteq> t) (timers s)\<rparr>)"

definition setTimeout :: "nat \<Rightarrow> state \<Rightarrow> nat \<times> state" where
  "setTimeout delay s =
     (nextTimer s,
      s\<lparr>timers := timers s @ [(nextTimer s, now s + delay)], nextTimer := Suc (nextTimer s)\<rparr>)"

definition arm :: "int \<Rightarrow> state \<Rightarrow> state" where
  "arm blockNumber s =
     (let s1 = clearTimeout (snd (blockNumberPid s)) s;
          (t, s2) = setTimeout 500 s1
      in s2\<lparr>blockNumberPid := (blockNumber, Some t)\<rparr>)"

text \<open>The subscriber of \<^verbatim>\<open>subject("blockNumber")\<close>.\<close>

definition onBlockNumber :: "int \<Rightarrow> state \<Rightarrow> state" where
  "onBlockNumber blockNumber s =
     (let s0 = emit (Console LogL [JStr ''blockNumber'', JNum blockNumber]) s
      in if blockNumber > fst (blockNumberPid s0) + 4 then arm blockNumber s0 else s0)"

text \<open>The subscriber of \<^verbatim>\<open>subject("blockNumberBump")\<close>.\<close>

definition onBlockNumberBump :: "int \<Rightarrow> state \<Rightarrow> state" where
  "onBlockNumberBump blockNumber s = arm blockNumber s"

text \<open>
  \<open>dt\<close> milliseconds pass with no event: the timeouts that fall due in them leave the
  pending list and run, in the order they were set, each at the time it is due.
\<close>

definition fire :: "env \<Rightarrow> state \<Rightarrow> nat \<times> nat \<Rightarrow> state" where
  "fire E s timer = updateOnBlock E (s\<lparr>now := max (now s) (snd timer)\<rparr>)"

definition elapse :: "env \<Rightarrow> nat \<Rightarrow> state \<Rightarrow> state" where
  "elapse E dt s =
     (let due = filter (\<lambda>p. snd p \<le> now s + dt) (timers s);
          s1 = s\<lparr>timers := filter (\<lambda>p. \<not> snd p \<le> now s + dt) (timers s)\<rparr>;
          s2 = foldl (fire E) s1 due
      in s2\<lparr>now := now s + dt\<rparr>)"

datatype event = BlockNumber int | BlockNumberBump int | Elapse nat

fun step :: "env \<Rightarrow> state \<Rightarrow> event \<Rightarrow> state" where
  "step E s (BlockNumber n) = onBlockNumber n s"
| "step E s (BlockNumberBump n) = onBlockNumberBump n s"
| "step E s (Elapse dt) = elapse E dt s"

definition run :: "env \<Rightarrow> state \<Rightarrow> event list \<Rightarrow> state" where
  "run E s events = foldl (step E) s events"

text \<open>The number of refresh cycles a trace holds: one per start line of \<^verbatim>\<open>updateOnBlock\<close>.\<close>

fun isRefreshStart :: "effect \<Rightarrow> bool" where
  "isRefreshStart (Console LogL [JStr msg, JNum t]) = (msg = ''running balance update'')"
| "isRefreshStart e = False"

definition refreshCycles :: "state \<Rightarrow> nat" where
  "refreshCycles s = length (filter isRefreshStart (trace s))"

text \<open>The state of the module when it is loaded.\<close>

definition initial :: "ethStore \<Rightarrow> state" where
  "initial store =
     \<lparr> contracts = Map.empty, trackedBalances = [], trackedFunctions = [],
       blockNumberPid = (0, None), eth = store, nextProxy = 0, timers = [], nextTimer = 0,
       now = 0, trace = [] \<rparr>"

section \<open>A sample configuration\<close>

text \<open>
  Concrete collaborators on which the theorems below are run: two addresses, an ABI
  with two functions and an event, one override rule, a key codec that joins its
  components with dots, and a binding in the manner of ethers: a function of the ABI
  is a member under its signature and, when no other function has its name, under its
  name, in the binding and in its \<^verbatim>\<open>functions\<close>; \<^verbatim>\<open>address\<close> and
  \<^verbatim>\<open>interface\<close> are members that are no functions.
\<close>

definition signature :: "fragment \<Rightarrow> string" where
  "signature f =
     name f @ ''('' @ concat (case inputs f of [] \<Rightarrow> [] | t # ts \<Rightarrow> t # map (\<lambda>u. '','' @ u) ts) @ '')''"

definition sampleFunctions :: "abi \<Rightarrow> string list" where
  "sampleFunctions contractAbi =
     (let fs = filter (\<lambda>f. ftype f = Function) contractAbi;
          sigs = remdups (map signature fs);
          names = filter (\<lambda>n. length (filter (\<lambda>g. g = n) (map name fs)) = 1) (map name fs)
      in sigs @ names)"

definition sampleMembers :: "abi \<Rightarrow> (string \<times> memberType) list" where
  "sampleMembers contractAbi =
     [(''address'', Data), (''interface'', Data)]
     @ map (\<lambda>k. (k, Callable)) (sampleFunctions contractAbi)"

definition sampleIsAddress :: "string \<Rightarrow> bool" where
  "sampleIsAddress a =
     (length a = 42 \<and> take 2 a = ''0x''
      \<and> list_all (\<lambda>c. c \<in> set ''0123456789abcdefABCDEF'') (drop 2 a))"

definition tokenA :: string where
  "tokenA = ''0x6b175474e89094c44da98b954eedeac495271d0f''"

definition accountB :: string where
  "accountB = ''0x00000000000000000000000000000000000000b2''"

definition sampleAbi :: abi where
  "sampleAbi =
     [\<lparr> ftype = Function, name = ''balanceOf'', inputs = [''address''] \<rparr>,
      \<lparr> ftype = Function, name = ''transfer'', inputs = [''address'', ''uint256''] \<rparr>,
      \<lparr> ftype = Event, name = ''Transfer'', inputs = [''address'', ''address'', ''uint256''] \<rparr>]"

definition sampleOverrides :: jsval where
  "sampleOverrides = JObj [(tokenA, JObj [(''transfer'', JObj [(''gasLimit'', JNum 100000)])])]"

definition propKeys :: "jsval \<Rightarrow> string" where
  "propKeys v = concat (map (\<lambda>kv. fst kv @ '','') (ownProps v))"

definition sampleFunctionKey :: "string \<Rightarrow> string \<Rightarrow> jsval list \<Rightarrow> jsval \<Rightarrow> string" where
  "sampleFunctionKey a f passedArgs ov =
     a @ ''.'' @ f @ ''.'' @ showNat (length passedArgs) @ ''.'' @ propKeys ov"

definition sampleEnv :: env where
  "sampleEnv =
     \<lparr> isAddress = sampleIsAddress,
       findAbi = (\<lambda>a. if a = tokenA then Inr sampleAbi else Inl (JStr ''no abi'')),
       erc20 = sampleAbi,
       bindingMembers = sampleMembers,
       bindingFunctions = sampleFunctions,
       balanceKey = (\<lambda>t a. t @ ''.'' @ a),
       functionKey = sampleFunctionKey,
       overridesJson = sampleOverrides,
       chain = (\<lambda>t call. Some (JNum 7)),
       toString = (\<lambda>v. ''7'') \<rparr>"

definition sampleContract :: contract where
  "sampleContract =
     \<lparr> address = tokenA, interface = sampleAbi, signerOrProvider = ''provider'',
       members = sampleMembers sampleAbi, functionKeys = sampleFunctions sampleAbi \<rparr>"

definition sampleStore :: ethStore where
  "sampleStore = \<lparr> provider = ''provider'', signer = None \<rparr>"

definition sampleHandle :: handle where
  "sampleHandle = \<lparr> proxyId = 0, raw = sampleContract \<rparr>"

text \<open>The loaded module after one \<^verbatim>\<open>observableContract({ address: tokenA })\<close>.\<close>

definition sampleCached :: state where
  "sampleCached = (initial sampleStore)\<lparr>contracts := [tokenA \<mapsto> sampleHandle], nextProxy := 1\<rparr>"

text \<open>The cached module with two tracked balance keys, one of them no key, and a tracked call.\<close>

definition sampleTracked :: state where
  "sampleTracked =
     sampleCached
       \<lparr>trackedBalances := [tokenA @ ''.'' @ accountB, ''nokey''],
        trackedFunctions :=
          [(tokenA @ ''.balanceOf.1.'',
            \<lparr> contractAddress = tokenA, rawFunction = FunctionsMember sampleContract ''balanceOf'',
              args = [JStr accountB], overrides = JObj [] \<rparr>)]\<rparr>"

section \<open>Notions the properties are stated with\<close>

text \<open>
  The effective overrides as the specification words them: the registered rule for
  the function merged with the caller's overrides, the caller's values on top.
\<close>

definition effectiveOverrides :: "env \<Rightarrow> string \<Rightarrow> contract \<Rightarrow> jsval \<Rightarrow> jsval" where
  "effectiveOverrides E functionName c callerOverrides =
     (if hasOverrides (overridesJson E) functionName c
      then spread2 (getOverrides (overridesJson E) functionName c) callerOverrides
      else callerOverrides)"

text \<open>Every cached proxy was made by an earlier \<^verbatim>\<open>new Proxy\<close>.\<close>

definition cacheFresh :: "state \<Rightarrow> bool" where
  "cacheFresh s = (\<forall>a h. contracts s a = Some h \<longrightarrow> proxyId h < nextProxy s)"

text \<open>
  At most one timeout is pending: the one \<^verbatim>\<open>blockNumberPid[1]\<close> names, set earlier
  and due in the future.
\<close>

definition timerInv :: "state \<Rightarrow> bool" where
  "timerInv s =
     (case timers s of
        [] \<Rightarrow> True
      | [p] \<Rightarrow> snd (blockNumberPid s) = Some (fst p) \<and> fst p < nextTimer s \<and> now s < snd p
      | _ \<Rightarrow> False)"

text \<open>
  What the trace gained from state \<open>s\<close> to a later state \<open>s'\<close>, and the steps that
  start no refresh cycle and leave the tracked entries and the scheduler alone: they
  may add to the cache and to the trace.
\<close>

definition since :: "state \<Rightarrow> state \<Rightarrow> effect list" where
  "since s s' = drop (length (trace s)) (trace s')"

definition quiet :: "state \<Rightarrow> state \<Rightarrow> bool" where
  "quiet s s' =
     (trackedBalances s' = trackedBalances s \<and> trackedFunctions s' = trackedFunctions s \<and>
      blockNumberPid s' = blockNumberPid s \<and> timers s' = timers s \<and>
      nextTimer s' = nextTimer s \<and> now s' = now s \<and> eth s' = eth s \<and>
      dom (contracts s) \<subseteq> dom (contracts s') \<and>
      (\<exists>new. trace s' = trace s @ new \<and> filter isRefreshStart new = []))"

text \<open>A balance key whose two components are both addresses.\<close>

definition validBalanceKey :: "env \<Rightarrow> string \<Rightarrow> bool" where
  "validBalanceKey E key =
     (case splitOn CHR ''.'' key of
        token # account # rest \<Rightarrow> isAddress E token \<and> isAddress E account
      | _ \<Rightarrow> False)"

text \<open>
  What a stretch of the trace shows of a tracked entry being refreshed. For a balance
  key that is not valid, the two warnings. For a valid balance key, the \<^verbatim>\<open>balanceOf\<close>
  call on a binding of its token for its account; a binding of the erc20 ABI has to
  have a function under \<^verbatim>\<open>balanceOf\<close> for the call to be made. For a tracked function whose
  contract address validates, the stored function, bound to a binding, called with the
  stored arguments and the stored overrides after them.
\<close>

definition declaresBalanceOf :: "env \<Rightarrow> bool" where
  "declaresBalanceOf E = (map_of (bindingMembers E (erc20 E)) ''balanceOf'' = Some Callable)"

definition balanceTouched :: "env \<Rightarrow> string \<Rightarrow> effect list \<Rightarrow> bool" where
  "balanceTouched E key tr =
     (if validBalanceKey E key
      then declaresBalanceOf E \<longrightarrow>
             (\<exists>c. address c = hd (splitOn CHR ''.'' key) \<and>
                Called \<lparr> callee = Method c ''balanceOf'',
                         arguments = [JStr (hd (tl (splitOn CHR ''.'' key)))] \<rparr> \<in> set tr)
      else set (invalidKeyWarnings key) \<subseteq> set tr)"

definition functionTouched :: "env \<Rightarrow> entry \<Rightarrow> effect list \<Rightarrow> bool" where
  "functionTouched E e tr =
     (isAddress E (contractAddress e) \<longrightarrow>
        (\<exists>c. Called \<lparr> callee = Bound (rawFunction e) c, arguments = args e @ [overrides e] \<rparr>
               \<in> set tr))"

section \<open>Facts about the sample configuration\<close>

lemmas observableContract_defs =
  observableContract_def observableContractStart_def observableContractResume_def newProxy_def

lemma sampleIsAddress_tokenA: "sampleIsAddress tokenA"
  by code_simp


lemma sample_transfer_in_functions:
  "(''transfer'', tokenA, ''transfer'', FunctionsMember sampleContract ''transfer'')
     \<in> set (addonFunctions sampleContract)"
  by code_simp





lemma sample_isAddress_tokenA: "isAddress sampleEnv tokenA"
  by (simp add: sampleEnv_def sampleIsAddress_tokenA)


lemma sampleTracked_scheduler:
  "timers sampleTracked = []" "blockNumberPid sampleTracked = (0, None)"
  "nextTimer sampleTracked = 0" "now sampleTracked = 0" "trace sampleTracked = []"
  "trackedBalances sampleTracked = [tokenA @ ''.'' @ accountB, ''nokey'']"
  by (simp_all add: sampleTracked_def sampleCached_def initial_def)

lemma sampleTracked_timerInv: "timerInv sampleTracked"
  by (simp add: timerInv_def sampleTracked_scheduler)

section \<open>Object spread\<close>

text \<open>
  In \<^verbatim>\<open>{...a, ...b}\<close> a property of \<open>b\<close> wins over one of \<open>a\<close> with the same key, the
  properties of \<open>a\<close> that \<open>b\<close> does not have are kept, and \<^verbatim>\<open>{...a}\<close> is a copy.
\<close>

lemma map_of_setProp: "map_of (setProp k v kvs) = (map_of kvs)(k \<mapsto> v)"
  by (induction kvs) (auto simp: fun_eq_iff)

lemma map_of_assignProps: "map_of (assignProps target src) = map_of target ++ map_of (rev src)"
  unfolding assignProps_def
proof (induction src arbitrary: target)
  case Nil
  show ?case by simp
next
  case (Cons kv src)
  have "map_of (setProp (fst kv) (snd kv) target) ++ map_of (rev src) =
        map_of target ++ (map_of [kv] ++ map_of (rev src))"
    by (cases kv) (auto simp: map_of_setProp fun_eq_iff map_add_def split: option.splits)
  then show ?case by (simp add: Cons.IH)
qed

lemma setProp_new: "k \<notin> fst ` set kvs \<Longrightarrow> setProp k v kvs = kvs @ [(k, v)]"
  by (induction kvs) auto

lemma assignProps_distinct:
  assumes "distinct (map fst src)" and "fst ` set target \<inter> fst ` set src = {}"
  shows "assignProps target src = target @ src"
  using assms unfolding assignProps_def
proof (induction src arbitrary: target)
  case Nil
  show ?case by simp
next
  case (Cons kv src)
  from Cons.prems have new: "fst kv \<notin> fst ` set target" by auto
  have step: "setProp (fst kv) (snd kv) target = target @ [kv]"
    using setProp_new [OF new, of "snd kv"] by simp
  have "fst ` set (target @ [kv]) \<inter> fst ` set src = {}"
    using Cons.prems by auto
  with Cons.prems Cons.IH [of "target @ [kv]"] show ?case
    by (simp add: step)
qed

lemma spread1_copy: "distinct (map fst kvs) \<Longrightarrow> spread1 (JObj kvs) = JObj kvs"
  by (simp add: spread1_def assignProps_distinct)

lemma spread2_caller_wins:
  assumes "distinct (map fst (ownProps b))" and "(k, v) \<in> set (ownProps b)"
  shows "getProp (spread2 a b) k = v"
proof -
  from assms have "map_of (rev (ownProps b)) k = Some v"
    by (simp add: distinct_rev rev_map [symmetric])
  then show ?thesis
    by (simp add: spread2_def map_of_assignProps map_add_def)
qed

lemma spread2_registered_kept:
  assumes "k \<notin> fst ` set (ownProps b)"
  shows "getProp (spread2 a b) k = getProp (spread1 a) k"
proof -
  from assms have "map_of (rev (ownProps b)) k = None"
    by (simp add: map_of_eq_None_iff)
  then show ?thesis
    by (simp add: spread2_def spread1_def map_of_assignProps map_add_def)
qed

section \<open>Override injection\<close>

lemma overrideWrapped_exact:
  assumes "expectedArgLength prop c = Inr n" and "map_of (members c) prop = Some Callable"
    and "length passedArgs = n"
  shows "overrideWrapped co prop c passedArgs =
           Inr \<lparr> callee = Method c prop, arguments = passedArgs @ [spread1 (getOverrides co prop c)] \<rparr>"
  using assms by (simp add: overrideWrapped_def callMethod_def arrayGet_def arraySet_def)

lemma overrideWrapped_throws_iff:
  assumes "expectedArgLength prop c = Inr n" and "map_of (members c) prop = Some Callable"
  shows "(\<exists>e. overrideWrapped co prop c passedArgs = Inl e) \<longleftrightarrow> n < length passedArgs"
  using assms by (simp add: overrideWrapped_def callMethod_def Let_def)

text \<open>
  C1. The claim: the override-wrapped form of a function with \<open>n\<close> declared parameters,
  called with fewer than \<open>n\<close> arguments, raises an error and makes no call on the
  binding. The guard of \<^verbatim>\<open>overrideWrapped\<close> compares the other way round
  (\<open>overrideWrapped_throws_iff\<close>): \<^verbatim>\<open>transfer\<close> has two parameters, and called with
  one argument it does call the binding, with \<^verbatim>\<open>undefined\<close> in the missing slot and
  the registered overrides after it.
\<close>

theorem overrideWrapped_too_few_arguments:
  "expectedArgLength ''transfer'' sampleContract = Inr 2 \<and>
   overrideWrapped sampleOverrides ''transfer'' sampleContract [JStr accountB] =
     Inr \<lparr> callee = Method sampleContract ''transfer'',
           arguments = [JStr accountB, JUndefined, JObj [(''gasLimit'', JNum 100000)]] \<rparr>"
  by code_simp

text \<open>
  C5. The claim: with exactly \<open>n\<close> arguments the call receives the registered
  overrides at position \<open>n\<close> (so it does, \<open>overrideWrapped_exact\<close>), and with a plain
  object at position \<open>n\<close> it receives the merge of the registered overrides with that
  object. An argument at position \<open>n\<close> makes the argument list longer than \<open>n\<close>, and
  the guard then throws: \<^verbatim>\<open>transfer\<close> called with its two arguments and a trailing
  object makes no call at all.
\<close>

theorem overrideWrapped_trailing_object:
  "expectedArgLength ''transfer'' sampleContract = Inr 2 \<and>
   isPOJO (arrayGet [JStr accountB, JNum 5, JObj [(''gasPrice'', JNum 3)]] 2) \<and>
   overrideWrapped sampleOverrides ''transfer'' sampleContract
       [JStr accountB, JNum 5, JObj [(''gasPrice'', JNum 3)]] =
     Inl (ReferenceError ''address'')"
  by code_simp

section \<open>Tracking a call\<close>

lemma trackedFunctions_callAndPublish:
  "trackedFunctions (callAndPublish E key post call s) = trackedFunctions s"
  by (simp add: callAndPublish_def emit_def split: option.splits)

lemma map_of_setEntry_upd: "map_of (setEntry k e kes) = (map_of kes)(k \<mapsto> e)"
  by (induction kes) (auto simp: fun_eq_iff)

lemma trace_callAndPublish:
  "trace (callAndPublish E key post call s) =
     trace s @ Called call #
       (case chain E (now s) call of None \<Rightarrow> [] | Some v \<Rightarrow> [Published key (post v)])"
  by (simp add: callAndPublish_def emit_def split: option.splits)

lemma getProp_spread2:
  "getProp (spread2 a b) k =
     (case map_of (rev (ownProps b)) k of Some v \<Rightarrow> v | None \<Rightarrow> getProp (spread1 a) k)"
  by (simp add: spread2_def spread1_def map_of_assignProps map_add_def split: option.splits)

text \<open>
  C2, as amended. \<^verbatim>\<open>track\<close> computes the key from the caller's overrides as they
  were passed (\<^verbatim>\<open>{}\<close> when absent), before any registered rule is merged in. That
  key, \<^verbatim>\<open>functionKey(address, functionName, args, callerOverrides)\<close>, is the one it
  returns, the one it registers the entry under (no other entry changes), and the one
  it publishes on: what \<^verbatim>\<open>track\<close> adds to the trace is the immediate call and, if
  the call resolves, the publication of its result on the stream of that key. The
  entry and the call carry the effective overrides. With a rule registered these are
  the merge in which a key the caller passed has the caller's value (the last one,
  should the caller's object list the key twice) and every other key has the value of
  the registered rule; with no rule registered they are the caller's overrides.
\<close>

theorem track_key_and_entry:
  "(let callerOverrides = (if co = JUndefined then JObj [] else co);
        key = functionKey E a f passedArgs callerOverrides;
        effective = effectiveOverrides E f c callerOverrides;
        call = \<lparr> callee = Bound r c, arguments = passedArgs @ [effective] \<rparr>;
        s' = snd (track E a f r passedArgs c co s)
    in fst (track E a f r passedArgs c co s) = key \<and>
       map_of (trackedFunctions s') =
         (map_of (trackedFunctions s))
           (key \<mapsto> \<lparr> contractAddress = a, rawFunction = r, args = passedArgs,
                      overrides = effective \<rparr>) \<and>
       trace s' =
         trace s @ Called call #
           (case chain E (now s) call of None \<Rightarrow> [] | Some v \<Rightarrow> [Published key v]) \<and>
       (hasOverrides (overridesJson E) f c \<longrightarrow>
          (\<forall>k. getProp effective k =
             (case map_of (rev (ownProps callerOverrides)) k of
                Some v \<Rightarrow> v
              | None \<Rightarrow> getProp (spread1 (getOverrides (overridesJson E) f c)) k))) \<and>
       (\<not> hasOverrides (overridesJson E) f c \<longrightarrow> effective = callerOverrides))"
  by (simp add: track_def Let_def effectiveOverrides_def trackedFunctions_callAndPublish
      map_of_setEntry_upd trace_callAndPublish getProp_spread2)

theorem track_key_and_entry_witness:
  "fst (track sampleEnv tokenA ''transfer'' (FunctionsMember sampleContract ''transfer'')
          [JStr accountB, JNum 5] sampleContract
          (JObj [(''gasLimit'', JNum 5), (''gasPrice'', JNum 3)]) sampleCached)
     = tokenA @ ''.transfer.2.gasLimit,gasPrice,'' \<and>
   map_of (trackedFunctions
            (snd (track sampleEnv tokenA ''transfer'' (FunctionsMember sampleContract ''transfer'')
                    [JStr accountB, JNum 5] sampleContract
                    (JObj [(''gasLimit'', JNum 5), (''gasPrice'', JNum 3)]) sampleCached)))
       (tokenA @ ''.transfer.2.gasLimit,gasPrice,'') =
     Some \<lparr> contractAddress = tokenA, rawFunction = FunctionsMember sampleContract ''transfer'',
            args = [JStr accountB, JNum 5],
            overrides = JObj [(''gasLimit'', JNum 5), (''gasPrice'', JNum 3)] \<rparr> \<and>
   trace (snd (track sampleEnv tokenA ''transfer'' (FunctionsMember sampleContract ''transfer'')
                 [JStr accountB, JNum 5] sampleContract
                 (JObj [(''gasLimit'', JNum 5), (''gasPrice'', JNum 3)]) sampleCached)) =
     [Called \<lparr> callee = Bound (FunctionsMember sampleContract ''transfer'') sampleContract,
               arguments = [JStr accountB, JNum 5,
                            JObj [(''gasLimit'', JNum 5), (''gasPrice'', JNum 3)]] \<rparr>,
      Published (tokenA @ ''.transfer.2.gasLimit,gasPrice,'') (JNum 7)] \<and>
   getProp (effectiveOverrides sampleEnv ''transfer'' sampleContract
              (JObj [(''gasLimit'', JNum 5), (''gasPrice'', JNum 3)])) ''gasLimit'' = JNum 5 \<and>
   getProp (effectiveOverrides sampleEnv ''transfer'' sampleContract
              (JObj [(''gasPrice'', JNum 3)])) ''gasLimit'' = JNum 100000"
proof -
  let ?co = "JObj [(''gasLimit'', JNum 5), (''gasPrice'', JNum 3)]"
  have key: "functionKey sampleEnv tokenA ''transfer'' [JStr accountB, JNum 5] ?co =
               tokenA @ ''.transfer.2.gasLimit,gasPrice,''"
    by code_simp
  have eff: "effectiveOverrides sampleEnv ''transfer'' sampleContract ?co = ?co"
    by code_simp
  have reg: "getProp (spread1 (getOverrides (overridesJson sampleEnv) ''transfer'' sampleContract))
               ''gasLimit'' = JNum 100000"
    by code_simp
  have has: "hasOverrides (overridesJson sampleEnv) ''transfer'' sampleContract"
    by code_simp
  have ch: "chain sampleEnv t call = Some (JNum 7)" for t call
    by (simp add: sampleEnv_def)
  have tr: "trace sampleCached = []"
    by (simp add: sampleCached_def initial_def)
  note t = track_key_and_entry [of ?co sampleEnv tokenA "''transfer''" "[JStr accountB, JNum 5]"
      sampleContract "FunctionsMember sampleContract ''transfer''" sampleCached]
  note u = track_key_and_entry [of "JObj [(''gasPrice'', JNum 3)]" sampleEnv tokenA "''transfer''"
      "[JStr accountB, JNum 5]" sampleContract "FunctionsMember sampleContract ''transfer''"
      sampleCached]
  from t have c1: "fst (track sampleEnv tokenA ''transfer'' (FunctionsMember sampleContract ''transfer'')
          [JStr accountB, JNum 5] sampleContract ?co sampleCached)
     = tokenA @ ''.transfer.2.gasLimit,gasPrice,''"
    by (simp add: Let_def key)
  from t have c2: "map_of (trackedFunctions
            (snd (track sampleEnv tokenA ''transfer'' (FunctionsMember sampleContract ''transfer'')
                    [JStr accountB, JNum 5] sampleContract ?co sampleCached)))
       (tokenA @ ''.transfer.2.gasLimit,gasPrice,'') =
     Some \<lparr> contractAddress = tokenA, rawFunction = FunctionsMember sampleContract ''transfer'',
            args = [JStr accountB, JNum 5], overrides = ?co \<rparr>"
    by (simp add: Let_def key eff)
  from t have c3: "trace (snd (track sampleEnv tokenA ''transfer''
                 (FunctionsMember sampleContract ''transfer'')
                 [JStr accountB, JNum 5] sampleContract ?co sampleCached)) =
     [Called \<lparr> callee = Bound (FunctionsMember sampleContract ''transfer'') sampleContract,
               arguments = [JStr accountB, JNum 5, ?co] \<rparr>,
      Published (tokenA @ ''.transfer.2.gasLimit,gasPrice,'') (JNum 7)]"
    by (simp add: Let_def key eff ch tr)
  from t has have c4: "getProp (effectiveOverrides sampleEnv ''transfer'' sampleContract ?co)
      ''gasLimit'' = JNum 5"
    by (simp add: Let_def)
  from u has have c5: "getProp (effectiveOverrides sampleEnv ''transfer'' sampleContract
      (JObj [(''gasPrice'', JNum 3)])) ''gasLimit'' = JNum 100000"
    by (simp add: Let_def reg)
  from c1 c2 c3 c4 c5 show ?thesis by simp
qed

text \<open>
  C2, as stated: the key would be computed from the effective overrides. With a rule
  registered for \<^verbatim>\<open>transfer\<close>, the key \<^verbatim>\<open>track\<close> returns is not the key of the
  effective overrides.
\<close>

theorem track_key_counterexample:
  "fst (track sampleEnv tokenA ''transfer'' (FunctionsMember sampleContract ''transfer'')
          [JStr accountB, JNum 5] sampleContract (JObj [(''gasPrice'', JNum 3)]) sampleCached)
     \<noteq> functionKey sampleEnv tokenA ''transfer'' [JStr accountB, JNum 5]
          (effectiveOverrides sampleEnv ''transfer'' sampleContract (JObj [(''gasPrice'', JNum 3)]))"
  by code_simp

section \<open>Properties of the handle cache\<close>

lemma observableContract_cached:
  assumes "isAddress E a" and "contracts s a = Some h"
  shows "observableContract E None a s = Inr (h, s)"
  using assms by (simp add: observableContract_defs)

lemma observableContract_caches:
  assumes "isAddress E a"
  shows "\<exists>h s1. observableContract E None a s = Inr (h, s1) \<and> contracts s1 a = Some h"
  using assms
  by (cases "contracts s a"; cases "findAbi E a")
     (simp_all add: observableContract_defs Let_def emit_def)

lemma observableContract_explicit:
  assumes "isAddress E a"
  shows "observableContract E (Some explicitAbi) a s =
           Inr (\<lparr> proxyId = nextProxy s,
                  raw = \<lparr> address = a, interface = explicitAbi,
                          signerOrProvider =
                            (case signer (eth s) of Some sg \<Rightarrow> sg | None \<Rightarrow> provider (eth s)),
                          members = bindingMembers E explicitAbi,
                          functionKeys = bindingFunctions E explicitAbi \<rparr> \<rparr>,
                s\<lparr>nextProxy := Suc (nextProxy s)\<rparr>)"
  using assms by (cases "contracts s a") (simp_all add: observableContract_defs Let_def)


lemma cacheFresh_resetContractCache: "cacheFresh (resetContractCache s)"
  by (simp add: cacheFresh_def resetContractCache_def)









text \<open>
  C10. A handle made with an explicit ABI is not put in the cache. While the cache has
  no entry for its address, a call of any member of its functions map throws a
  \<^verbatim>\<open>TypeError\<close> at \<^verbatim>\<open>contracts[contractAddress].raw\<close>, before anything is called on
  a binding: the member looks the binding up in the shared cache by address and does
  not use the binding of its own handle.
\<close>

theorem trackable_without_cache_entry:
  assumes "observableContract E (Some explicitAbi) a s = Inr (h, s')"
    and "contracts s a = None"
    and "handlerGet co h ''functions'' = Functions fs"
    and "(k, ca, fn, r) \<in> set fs"
  shows "ca = a \<and> contracts s' a = None \<and>
         generateTrackableFunction ca fn r passedArgs s' = Inl TypeError"
  using assms
  by (auto simp: observableContract_defs handlerGet_def addonFunctions_def
      generateTrackableFunction_def Let_def split: if_splits)

theorem trackable_without_cache_entry_witness:
  "observableContract sampleEnv (Some sampleAbi) tokenA (initial sampleStore) =
     Inr (sampleHandle, (initial sampleStore)\<lparr>nextProxy := 1\<rparr>) \<and>
   contracts (initial sampleStore) tokenA = None \<and>
   handlerGet sampleOverrides sampleHandle ''functions'' = Functions (addonFunctions sampleContract) \<and>
   (''transfer'', tokenA, ''transfer'', FunctionsMember sampleContract ''transfer'')
     \<in> set (addonFunctions sampleContract) \<and>
   generateTrackableFunction tokenA ''transfer'' (FunctionsMember sampleContract ''transfer'')
     [JStr accountB, JNum 5] ((initial sampleStore)\<lparr>nextProxy := 1\<rparr>) = Inl TypeError"
proof -
  have h1: "observableContract sampleEnv (Some sampleAbi) tokenA (initial sampleStore) =
     Inr (sampleHandle, (initial sampleStore)\<lparr>nextProxy := 1\<rparr>)"
    by (simp add: observableContract_defs sampleEnv_def sampleIsAddress_tokenA initial_def
        sampleStore_def sampleHandle_def sampleContract_def Let_def)
  have h2: "contracts (initial sampleStore) tokenA = None"
    by (simp add: initial_def)
  have h3: "handlerGet sampleOverrides sampleHandle ''functions'' =
              Functions (addonFunctions sampleContract)"
    by (simp add: handlerGet_def sampleHandle_def)
  from trackable_without_cache_entry [OF h1 h2 h3 sample_transfer_in_functions]
    h1 h2 h3 sample_transfer_in_functions
  show ?thesis by simp
qed

section \<open>Property access and the functions map\<close>




section \<open>Steps that leave the tracked entries and the scheduler alone\<close>

lemma quiet_refl: "quiet s s"
  by (simp add: quiet_def)

lemma quiet_trans:
  assumes "quiet s s1" and "quiet s1 s2"
  shows "quiet s s2"
proof -
  from assms(1) obtain n1 where n1: "trace s1 = trace s @ n1" "filter isRefreshStart n1 = []"
    unfolding quiet_def by blast
  from assms(2) obtain n2 where n2: "trace s2 = trace s1 @ n2" "filter isRefreshStart n2 = []"
    unfolding quiet_def by blast
  have tr: "\<exists>new. trace s2 = trace s @ new \<and> filter isRefreshStart new = []"
    using n1 n2 by (intro exI [of _ "n1 @ n2"]) simp
  have d: "dom (contracts s) \<subseteq> dom (contracts s2)"
    using assms unfolding quiet_def by blast
  show ?thesis
    using assms tr d unfolding quiet_def by simp
qed

lemma quiet_emit: "\<not> isRefreshStart e \<Longrightarrow> quiet s (emit e s)"
  by (simp add: quiet_def emit_def)

lemma quiet_callAndPublish: "quiet s (callAndPublish E key post call s)"
  by (simp add: quiet_def callAndPublish_def emit_def split: option.splits)


lemma quiet_observableContract:
  assumes "observableContract E abiArg a s = Inr (h, s')"
  shows "quiet s s'"
proof (cases "isAddress E a")
  case False
  with assms show ?thesis by (simp add: observableContract_defs)
next
  case True
  show ?thesis
  proof (cases abiArg)
    case (Some explicitAbi)
    with assms observableContract_explicit [OF True, of explicitAbi s]
    have "s' = s\<lparr>nextProxy := Suc (nextProxy s)\<rparr>" by simp
    then show ?thesis by (simp add: quiet_def)
  next
    case None
    show ?thesis
    proof (cases "contracts s a")
      case (Some cached)
      with assms None True show ?thesis
        by (simp add: observableContract_cached quiet_refl)
    next
      case noentry: None
      show ?thesis
      proof (cases "findAbi E a")
        case (Inl e)
        with assms None True noentry show ?thesis
          by (simp add: observableContract_defs Let_def emit_def) (auto simp: quiet_def)
      next
        case (Inr found)
        with assms None True noentry show ?thesis
          by (simp add: observableContract_defs Let_def emit_def) (auto simp: quiet_def)
      qed
    qed
  qed
qed


lemma quiet_warn: "quiet s (s\<lparr>trace := trace s @ invalidKeyWarnings key\<rparr>)"
  by (simp add: quiet_def invalidKeyWarnings_def)

lemma refreshBalance_invalid:
  assumes "\<not> validBalanceKey E key"
  shows "refreshBalance E s key = s\<lparr>trace := trace s @ invalidKeyWarnings key\<rparr>"
  using assms by (auto simp: refreshBalance_def validBalanceKey_def split: list.splits)

lemma refreshBalance_valid:
  assumes "validBalanceKey E key"
  shows "\<exists>token account rest h s1.
           splitOn CHR ''.'' key = token # account # rest \<and>
           observableContract E (Some (erc20 E)) token s = Inr (h, s1) \<and> address (raw h) = token \<and>
           refreshBalance E s key =
             (if declaresBalanceOf E
              then callAndPublish E key (\<lambda>balance. JStr (toString E balance))
                     \<lparr> callee = Method (raw h) ''balanceOf'', arguments = [JStr account] \<rparr> s1
              else s1)"
proof -
  from assms obtain token account rest
    where sp: "splitOn CHR ''.'' key = token # account # rest"
      and ok: "isAddress E token" "isAddress E account"
    by (auto simp: validBalanceKey_def split: list.splits)
  from sp ok observableContract_explicit [OF ok(1), of "erc20 E" s] show ?thesis
    by (auto simp: refreshBalance_def callMethod_def declaresBalanceOf_def
        split: option.splits memberType.splits)
qed

lemma quiet_refreshBalance: "quiet s (refreshBalance E s key)"
proof (cases "validBalanceKey E key")
  case False
  then show ?thesis by (simp add: refreshBalance_invalid quiet_warn)
next
  case True
  from refreshBalance_valid [OF True, of s] obtain token account rest h s1
    where obs: "observableContract E (Some (erc20 E)) token s = Inr (h, s1)"
      and eq: "refreshBalance E s key =
             (if declaresBalanceOf E
              then callAndPublish E key (\<lambda>balance. JStr (toString E balance))
                     \<lparr> callee = Method (raw h) ''balanceOf'', arguments = [JStr account] \<rparr> s1
              else s1)"
    by blast
  from quiet_observableContract [OF obs] have q: "quiet s s1" .
  show ?thesis
  proof (cases "declaresBalanceOf E")
    case True
    from q show ?thesis
      unfolding eq using True by (simp add: quiet_trans [OF _ quiet_callAndPublish])
  next
    case False
    with q show ?thesis unfolding eq by simp
  qed
qed

lemma quiet_refreshFunction: "quiet s (refreshFunction E s key)"
proof (cases "map_of (trackedFunctions s) key")
  case None
  then show ?thesis by (simp add: refreshFunction_def quiet_refl)
next
  case (Some e)
  show ?thesis
  proof (cases "observableContract E None (contractAddress e) s")
    case (Inl err)
    with Some show ?thesis by (simp add: refreshFunction_def quiet_refl)
  next
    case (Inr hs)
    obtain h s1 where hs: "hs = (h, s1)" by (cases hs)
    from quiet_observableContract [OF Inr [unfolded hs]] have "quiet s s1" .
    then have "quiet s (callAndPublish E key (\<lambda>v. v)
                 \<lparr> callee = Bound (rawFunction e) (raw h), arguments = args e @ [overrides e] \<rparr> s1)"
      by (rule quiet_trans) (rule quiet_callAndPublish)
    with Some Inr hs show ?thesis by (simp add: refreshFunction_def)
  qed
qed

lemma quiet_foldl:
  assumes "\<And>s k. quiet s (f s k)"
  shows "quiet s (foldl f s ks)"
proof (induction ks arbitrary: s)
  case Nil
  show ?case by (simp add: quiet_refl)
next
  case (Cons k ks)
  have "quiet s (f s k)" by (rule assms)
  moreover have "quiet (f s k) (foldl f (f s k) ks)" by (rule Cons)
  ultimately show ?case by (simp add: quiet_trans)
qed


section \<open>What a refresh cycle touches\<close>

lemma since_trans:
  assumes "quiet s s1" and "quiet s1 s2"
  shows "since s s2 = since s s1 @ since s1 s2"
proof -
  from assms(1) obtain n1 where n1: "trace s1 = trace s @ n1"
    unfolding quiet_def by blast
  from assms(2) obtain n2 where n2: "trace s2 = trace s1 @ n2"
    unfolding quiet_def by blast
  show ?thesis by (simp add: since_def n1 n2)
qed

lemma balanceTouched_mono:
  assumes "balanceTouched E key tr" and "set tr \<subseteq> set tr'"
  shows "balanceTouched E key tr'"
  using assms unfolding balanceTouched_def by (auto split: if_splits)

lemma functionTouched_mono:
  assumes "functionTouched E e tr" and "set tr \<subseteq> set tr'"
  shows "functionTouched E e tr'"
  using assms unfolding functionTouched_def by blast

lemma since_callAndPublish:
  "Called call \<in> set (since s (callAndPublish E key post call s))"
  by (simp add: since_def callAndPublish_def emit_def split: option.splits)

lemma balanceTouched_refreshBalance: "balanceTouched E key (since s (refreshBalance E s key))"
proof (cases "validBalanceKey E key")
  case False
  then show ?thesis
    by (simp add: refreshBalance_invalid balanceTouched_def since_def)
next
  case True
  show ?thesis
  proof (cases "declaresBalanceOf E")
    case False
    with True show ?thesis by (simp add: balanceTouched_def)
  next
    case declared: True
    from refreshBalance_valid [OF True, of s] declared obtain token account rest h s1
      where sp: "splitOn CHR ''.'' key = token # account # rest"
        and obs: "observableContract E (Some (erc20 E)) token s = Inr (h, s1)"
        and ad: "address (raw h) = token"
        and eq: "refreshBalance E s key =
               callAndPublish E key (\<lambda>balance. JStr (toString E balance))
                 \<lparr> callee = Method (raw h) ''balanceOf'', arguments = [JStr account] \<rparr> s1"
      by auto
    have "since s (refreshBalance E s key) = since s s1 @ since s1 (refreshBalance E s key)"
      unfolding eq by (rule since_trans [OF quiet_observableContract [OF obs] quiet_callAndPublish])
    moreover have "Called \<lparr> callee = Method (raw h) ''balanceOf'', arguments = [JStr account] \<rparr>
                     \<in> set (since s1 (refreshBalance E s key))"
      unfolding eq by (rule since_callAndPublish)
    ultimately show ?thesis
      using True sp ad by (auto simp: balanceTouched_def)
  qed
qed

lemma functionTouched_refreshFunction:
  assumes "map_of (trackedFunctions s) key = Some e"
  shows "functionTouched E e (since s (refreshFunction E s key))"
    and "isAddress E (contractAddress e) \<Longrightarrow>
           contractAddress e \<in> dom (contracts (refreshFunction E s key))"
proof -
  have both: "functionTouched E e (since s (refreshFunction E s key)) \<and>
        (isAddress E (contractAddress e) \<longrightarrow>
           contractAddress e \<in> dom (contracts (refreshFunction E s key)))"
  proof (cases "isAddress E (contractAddress e)")
    case False
    then show ?thesis by (simp add: functionTouched_def)
  next
    case True
    from observableContract_caches [OF True, of s] obtain h s1
      where obs: "observableContract E None (contractAddress e) s = Inr (h, s1)"
        and cached: "contracts s1 (contractAddress e) = Some h"
      by blast
    let ?call = "\<lparr> callee = Bound (rawFunction e) (raw h), arguments = args e @ [overrides e] \<rparr>"
    have eq: "refreshFunction E s key = callAndPublish E key (\<lambda>v. v) ?call s1"
      using assms obs by (simp add: refreshFunction_def)
    have q1: "quiet s s1" by (rule quiet_observableContract [OF obs])
    have q2: "quiet s1 (refreshFunction E s key)" unfolding eq by (rule quiet_callAndPublish)
    have "Called ?call \<in> set (since s1 (refreshFunction E s key))"
      unfolding eq by (rule since_callAndPublish)
    then have "Called ?call \<in> set (since s (refreshFunction E s key))"
      by (simp add: since_trans [OF q1 q2])
    moreover have "contractAddress e \<in> dom (contracts (refreshFunction E s key))"
      using q2 cached unfolding quiet_def by blast
    ultimately show ?thesis by (auto simp: functionTouched_def)
  qed
  from both show "functionTouched E e (since s (refreshFunction E s key))" by simp
  from both show "isAddress E (contractAddress e) \<Longrightarrow>
           contractAddress e \<in> dom (contracts (refreshFunction E s key))" by simp
qed

lemma balanceTouched_foldl:
  assumes "key \<in> set ks"
  shows "balanceTouched E key (since s (foldl (refreshBalance E) s ks))"
  using assms
proof (induction ks arbitrary: s)
  case Nil
  then show ?case by simp
next
  case (Cons k ks)
  let ?s1 = "refreshBalance E s k"
  let ?s2 = "foldl (refreshBalance E) ?s1 ks"
  have q1: "quiet s ?s1" by (rule quiet_refreshBalance)
  have q2: "quiet ?s1 ?s2" by (rule quiet_foldl) (rule quiet_refreshBalance)
  have split: "since s ?s2 = since s ?s1 @ since ?s1 ?s2" by (rule since_trans [OF q1 q2])
  show ?case
  proof (cases "key = k")
    case True
    have "balanceTouched E key (since s ?s1)"
      unfolding True by (rule balanceTouched_refreshBalance)
    then show ?thesis
      by (rule balanceTouched_mono) (simp add: split)
  next
    case False
    with Cons.prems have "key \<in> set ks" by simp
    then have "balanceTouched E key (since ?s1 ?s2)" by (rule Cons.IH)
    then show ?thesis
      by (rule balanceTouched_mono) (simp add: split)
  qed
qed

lemma functionTouched_foldl:
  assumes "map_of (trackedFunctions s) key = Some e" and "key \<in> set ks"
  shows "functionTouched E e (since s (foldl (refreshFunction E) s ks)) \<and>
         (isAddress E (contractAddress e) \<longrightarrow>
            contractAddress e \<in> dom (contracts (foldl (refreshFunction E) s ks)))"
  using assms
proof (induction ks arbitrary: s)
  case Nil
  then show ?case by simp
next
  case (Cons k ks)
  let ?s1 = "refreshFunction E s k"
  let ?s2 = "foldl (refreshFunction E) ?s1 ks"
  have q1: "quiet s ?s1" by (rule quiet_refreshFunction)
  have q2: "quiet ?s1 ?s2" by (rule quiet_foldl) (rule quiet_refreshFunction)
  have split: "since s ?s2 = since s ?s1 @ since ?s1 ?s2" by (rule since_trans [OF q1 q2])
  have same: "map_of (trackedFunctions ?s1) key = Some e"
    using q1 Cons.prems(1) by (simp add: quiet_def)
  show ?case
  proof (cases "key = k")
    case True
    have t: "functionTouched E e (since s ?s1)"
      unfolding True [symmetric] by (rule functionTouched_refreshFunction(1) [OF Cons.prems(1)])
    have "functionTouched E e (since s ?s2)"
      using t by (rule functionTouched_mono) (simp add: split)
    moreover have "isAddress E (contractAddress e) \<longrightarrow> contractAddress e \<in> dom (contracts ?s2)"
      using functionTouched_refreshFunction(2) [OF Cons.prems(1), of E] q2
      unfolding True quiet_def by blast
    ultimately show ?thesis by simp
  next
    case False
    with Cons.prems have "key \<in> set ks" by simp
    from Cons.IH [OF same this]
    have ih: "functionTouched E e (since ?s1 ?s2)"
      "isAddress E (contractAddress e) \<longrightarrow> contractAddress e \<in> dom (contracts ?s2)"
      by simp_all
    have "functionTouched E e (since s ?s2)"
      using ih(1) by (rule functionTouched_mono) (simp add: split)
    with ih(2) show ?thesis by simp
  qed
qed

lemma not_refreshStart_blockNumber [simp]:
  "\<not> isRefreshStart (Console LogL [JStr ''blockNumber'', JNum n])"
  by simp

lemma isRefreshStart_refreshStart [simp]: "isRefreshStart (refreshStart t)"
  by (simp add: refreshStart_def)

lemma updateOnBlock_quiet: "quiet (emit (refreshStart (now s)) s) (updateOnBlock E s)"
proof -
  let ?s0 = "emit (refreshStart (now s)) s"
  let ?s1 = "foldl (refreshBalance E) ?s0 (trackedBalances ?s0)"
  have "quiet ?s0 ?s1" by (rule quiet_foldl) (rule quiet_refreshBalance)
  moreover have "quiet ?s1 (foldl (refreshFunction E) ?s1 (map fst (trackedFunctions ?s1)))"
    by (rule quiet_foldl) (rule quiet_refreshFunction)
  ultimately show ?thesis
    unfolding updateOnBlock_def Let_def by (rule quiet_trans)
qed

lemma updateOnBlock_frame:
  "trackedBalances (updateOnBlock E s) = trackedBalances s"
  "trackedFunctions (updateOnBlock E s) = trackedFunctions s"
  "blockNumberPid (updateOnBlock E s) = blockNumberPid s"
  "timers (updateOnBlock E s) = timers s"
  "nextTimer (updateOnBlock E s) = nextTimer s"
  "now (updateOnBlock E s) = now s"
  using updateOnBlock_quiet [of s E] by (simp_all add: quiet_def emit_def)

lemma since_updateOnBlock:
  "since s (updateOnBlock E s) =
     refreshStart (now s) # since (emit (refreshStart (now s)) s) (updateOnBlock E s)"
proof -
  from updateOnBlock_quiet [of s E] obtain new
    where "trace (updateOnBlock E s) = trace (emit (refreshStart (now s)) s) @ new"
    unfolding quiet_def by blast
  then show ?thesis by (simp add: since_def emit_def)
qed

lemma trace_updateOnBlock:
  "trace (updateOnBlock E s) = trace s @ since s (updateOnBlock E s)"
proof -
  from updateOnBlock_quiet [of s E] obtain new
    where "trace (updateOnBlock E s) = trace (emit (refreshStart (now s)) s) @ new"
    unfolding quiet_def by blast
  then show ?thesis by (simp add: since_def emit_def)
qed

lemma refreshCycles_updateOnBlock: "refreshCycles (updateOnBlock E s) = Suc (refreshCycles s)"
proof -
  from updateOnBlock_quiet [of s E] obtain new
    where "trace (updateOnBlock E s) = trace (emit (refreshStart (now s)) s) @ new"
      and "filter isRefreshStart new = []"
    unfolding quiet_def by blast
  then show ?thesis by (simp add: refreshCycles_def emit_def)
qed

lemma updateOnBlock_balanceTouched:
  assumes "key \<in> set (trackedBalances s)"
  shows "balanceTouched E key (since s (updateOnBlock E s))"
proof -
  let ?s0 = "emit (refreshStart (now s)) s"
  let ?s1 = "foldl (refreshBalance E) ?s0 (trackedBalances ?s0)"
  let ?s2 = "foldl (refreshFunction E) ?s1 (map fst (trackedFunctions ?s1))"
  have q1: "quiet ?s0 ?s1" by (rule quiet_foldl) (rule quiet_refreshBalance)
  have q2: "quiet ?s1 ?s2" by (rule quiet_foldl) (rule quiet_refreshFunction)
  have u: "updateOnBlock E s = ?s2" by (simp add: updateOnBlock_def Let_def)
  from assms have "key \<in> set (trackedBalances ?s0)" by (simp add: emit_def)
  then have "balanceTouched E key (since ?s0 ?s1)" by (rule balanceTouched_foldl)
  then have "balanceTouched E key (since ?s0 ?s2)"
    by (rule balanceTouched_mono) (simp add: since_trans [OF q1 q2])
  then show ?thesis
    by (rule balanceTouched_mono) (simp add: since_updateOnBlock u [symmetric] subset_insertI)
qed

lemma updateOnBlock_functionTouched:
  assumes "map_of (trackedFunctions s) key = Some e"
  shows "functionTouched E e (since s (updateOnBlock E s))"
    and "isAddress E (contractAddress e) \<Longrightarrow> contractAddress e \<in> dom (contracts (updateOnBlock E s))"
proof -
  let ?s0 = "emit (refreshStart (now s)) s"
  let ?s1 = "foldl (refreshBalance E) ?s0 (trackedBalances ?s0)"
  let ?s2 = "foldl (refreshFunction E) ?s1 (map fst (trackedFunctions ?s1))"
  have q1: "quiet ?s0 ?s1" by (rule quiet_foldl) (rule quiet_refreshBalance)
  have q2: "quiet ?s1 ?s2" by (rule quiet_foldl) (rule quiet_refreshFunction)
  have u: "updateOnBlock E s = ?s2" by (simp add: updateOnBlock_def Let_def)
  have tf: "trackedFunctions ?s1 = trackedFunctions s"
    using q1 by (simp add: quiet_def emit_def)
  have m: "map_of (trackedFunctions ?s1) key = Some e"
    using assms by (simp only: tf)
  then have "(key, e) \<in> set (trackedFunctions ?s1)" by (rule map_of_SomeD)
  then have "fst (key, e) \<in> fst ` set (trackedFunctions ?s1)" by (rule imageI)
  then have "key \<in> set (map fst (trackedFunctions ?s1))" by simp
  from functionTouched_foldl [OF m this, of E]
  have ft: "functionTouched E e (since ?s1 ?s2)"
    and c: "isAddress E (contractAddress e) \<longrightarrow> contractAddress e \<in> dom (contracts ?s2)"
    by simp_all
  from ft have "functionTouched E e (since ?s0 ?s2)"
    by (rule functionTouched_mono) (simp add: since_trans [OF q1 q2])
  then show "functionTouched E e (since s (updateOnBlock E s))"
    by (rule functionTouched_mono) (simp add: since_updateOnBlock u [symmetric] subset_insertI)
  from c show "isAddress E (contractAddress e) \<Longrightarrow> contractAddress e \<in> dom (contracts (updateOnBlock E s))"
    by (simp only: u)
qed



text \<open>
  C9. \<^verbatim>\<open>resetContractCache\<close> empties the address-to-handle mapping and changes no other
  variable of the module: the tracked balances, the tracked functions, the scheduler
  and the trace of what was published are as before. The next refresh touches every
  tracked entry again, and after it the cache holds a handle again for the contract of
  every tracked function whose address validates.
\<close>

theorem resetContractCache_frame:
  "contracts (resetContractCache s) = Map.empty \<and>
   trackedBalances (resetContractCache s) = trackedBalances s \<and>
   trackedFunctions (resetContractCache s) = trackedFunctions s \<and>
   blockNumberPid (resetContractCache s) = blockNumberPid s \<and>
   timers (resetContractCache s) = timers s \<and>
   nextTimer (resetContractCache s) = nextTimer s \<and>
   eth (resetContractCache s) = eth s \<and>
   nextProxy (resetContractCache s) = nextProxy s \<and>
   now (resetContractCache s) = now s \<and>
   trace (resetContractCache s) = trace s \<and>
   (\<forall>key \<in> set (trackedBalances s).
      balanceTouched E key (since s (updateOnBlock E (resetContractCache s)))) \<and>
   (\<forall>key e. map_of (trackedFunctions s) key = Some e \<longrightarrow>
      functionTouched E e (since s (updateOnBlock E (resetContractCache s))) \<and>
      (isAddress E (contractAddress e) \<longrightarrow>
         contractAddress e \<in> dom (contracts (updateOnBlock E (resetContractCache s)))))"
proof -
  let ?r = "resetContractCache s"
  have same: "since s (updateOnBlock E ?r) = since ?r (updateOnBlock E ?r)"
    by (simp add: since_def resetContractCache_def)
  have tb: "trackedBalances ?r = trackedBalances s" and tf: "trackedFunctions ?r = trackedFunctions s"
    by (simp_all add: resetContractCache_def)
  have b: "\<forall>key \<in> set (trackedBalances s). balanceTouched E key (since s (updateOnBlock E ?r))"
    unfolding same using updateOnBlock_balanceTouched [of _ ?r E] by (simp add: tb)
  have f: "\<forall>key e. map_of (trackedFunctions s) key = Some e \<longrightarrow>
      functionTouched E e (since s (updateOnBlock E ?r)) \<and>
      (isAddress E (contractAddress e) \<longrightarrow> contractAddress e \<in> dom (contracts (updateOnBlock E ?r)))"
    unfolding same
    using updateOnBlock_functionTouched [of ?r _ _ E] by (simp add: tf)
  show ?thesis
    using b f by (simp add: resetContractCache_def)
qed

theorem resetContractCache_frame_witness:
  "contracts (resetContractCache sampleTracked) tokenA = None \<and>
   trackedBalances (resetContractCache sampleTracked) = [tokenA @ ''.'' @ accountB, ''nokey''] \<and>
   balanceTouched sampleEnv ''nokey''
     (since sampleTracked (updateOnBlock sampleEnv (resetContractCache sampleTracked))) \<and>
   tokenA \<in> dom (contracts (updateOnBlock sampleEnv (resetContractCache sampleTracked)))"
proof -
  let ?e = "\<lparr> contractAddress = tokenA, rawFunction = FunctionsMember sampleContract ''balanceOf'',
              args = [JStr accountB], overrides = JObj [] \<rparr>"
  have tb: "trackedBalances sampleTracked = [tokenA @ ''.'' @ accountB, ''nokey'']"
    by (simp add: sampleTracked_def)
  have m: "map_of (trackedFunctions sampleTracked) (tokenA @ ''.balanceOf.1.'') = Some ?e"
    by (simp add: sampleTracked_def)
  note r = resetContractCache_frame [of sampleTracked sampleEnv]
  from r have c: "contracts (resetContractCache sampleTracked) tokenA = None" by simp
  from r have t: "trackedBalances (resetContractCache sampleTracked) = [tokenA @ ''.'' @ accountB, ''nokey'']"
    by (simp add: tb)
  from r have b: "balanceTouched sampleEnv ''nokey''
     (since sampleTracked (updateOnBlock sampleEnv (resetContractCache sampleTracked)))"
    by (simp add: tb)
  from r m sample_isAddress_tokenA
  have d: "tokenA \<in> dom (contracts (updateOnBlock sampleEnv (resetContractCache sampleTracked)))"
    by fastforce
  from c t b d show ?thesis by simp
qed

section \<open>Properties of the scheduler\<close>

lemma timerInv_cases:
  assumes "timerInv s"
  obtains "timers s = []"
  | t d where "timers s = [(t, d)]" and "snd (blockNumberPid s) = Some t" and "t < nextTimer s"
      and "now s < d"
proof (cases "timers s")
  case Nil
  then show ?thesis by (rule that(1))
next
  case (Cons p ps)
  with assms have ps: "ps = []" by (cases ps) (simp_all add: timerInv_def)
  obtain t d where p: "p = (t, d)" by (cases p)
  from assms Cons ps p show ?thesis by (intro that(2) [of t d]) (simp_all add: timerInv_def)
qed

lemma arm_timerInv:
  assumes "timerInv s"
  shows "arm n s =
           s\<lparr>timers := [(nextTimer s, now s + 500)], nextTimer := Suc (nextTimer s),
             blockNumberPid := (n, Some (nextTimer s))\<rparr>"
proof -
  have c: "clearTimeout (snd (blockNumberPid s)) s = s\<lparr>timers := []\<rparr>"
    using assms
    by (rule timerInv_cases) (simp_all add: clearTimeout_def split: option.splits)
  show ?thesis
    by (simp add: arm_def Let_def c setTimeout_def)
qed

lemma onBlockNumber_below:
  assumes "\<not> fst (blockNumberPid s) + 4 < n"
  shows "onBlockNumber n s = emit (Console LogL [JStr ''blockNumber'', JNum n]) s"
  using assms by (simp add: onBlockNumber_def Let_def emit_def)

lemma onBlockNumber_above:
  assumes "timerInv s" and "fst (blockNumberPid s) + 4 < n"
  shows "onBlockNumber n s =
           s\<lparr>trace := trace s @ [Console LogL [JStr ''blockNumber'', JNum n]],
             timers := [(nextTimer s, now s + 500)], nextTimer := Suc (nextTimer s),
             blockNumberPid := (n, Some (nextTimer s))\<rparr>"
proof -
  let ?s0 = "emit (Console LogL [JStr ''blockNumber'', JNum n]) s"
  have "timerInv ?s0" using assms(1) by (auto simp: timerInv_def emit_def split: list.splits)
  from arm_timerInv [OF this, of n] assms(2) show ?thesis
    by (simp add: onBlockNumber_def Let_def emit_def)
qed

lemma elapse_idle:
  assumes "timers s = []"
  shows "elapse E dt s = s\<lparr>now := now s + dt\<rparr>"
  using assms by (simp add: elapse_def Let_def)

lemma elapse_due:
  assumes "timers s = [(t, d)]" and "d \<le> now s + dt"
  shows "elapse E dt s = (updateOnBlock E (s\<lparr>timers := [], now := max (now s) d\<rparr>))\<lparr>now := now s + dt\<rparr>"
  using assms by (simp add: elapse_def Let_def fire_def)

lemma elapse_not_due:
  assumes "timers s = [(t, d)]" and "\<not> d \<le> now s + dt"
  shows "elapse E dt s = s\<lparr>now := now s + dt\<rparr>"
  using assms by (simp add: elapse_def Let_def)

lemma timerInv_elapse:
  assumes "timerInv s"
  shows "timerInv (elapse E dt s)"
  using assms
proof (rule timerInv_cases)
  assume "timers s = []"
  then show ?thesis by (simp add: elapse_idle timerInv_def)
next
  fix t d
  assume t: "timers s = [(t, d)]" and p: "snd (blockNumberPid s) = Some t" and n: "t < nextTimer s"
    and f: "now s < d"
  show ?thesis
  proof (cases "d \<le> now s + dt")
    case True
    show ?thesis
      by (simp add: elapse_due [OF t True] timerInv_def updateOnBlock_frame)
  next
    case False
    with t p n show ?thesis
      by (simp add: elapse_not_due [OF t False] timerInv_def)
  qed
qed

lemma timerInv_arm: "timerInv s \<Longrightarrow> timerInv (arm n s)"
  by (simp add: arm_timerInv timerInv_def)

lemma timerInv_onBlockNumber: "timerInv s \<Longrightarrow> timerInv (onBlockNumber n s)"
  by (cases "fst (blockNumberPid s) + 4 < n")
     (auto simp: onBlockNumber_above onBlockNumber_below timerInv_def emit_def split: list.splits)

lemma timerInv_step: "timerInv s \<Longrightarrow> timerInv (step E s ev)"
  by (cases ev) (simp_all add: timerInv_onBlockNumber onBlockNumberBump_def timerInv_arm timerInv_elapse)

lemma timerInv_run: "timerInv s \<Longrightarrow> timerInv (run E s events)"
  unfolding run_def by (induction events arbitrary: s) (simp_all add: timerInv_step)

lemma timerInv_initial: "timerInv (initial store)"
  by (simp add: timerInv_def initial_def)

lemma refreshCycles_quiet: "quiet s s' \<Longrightarrow> refreshCycles s' = refreshCycles s"
  by (auto simp: quiet_def refreshCycles_def)

lemma burst_quiet:
  assumes "\<forall>m \<in> set ns. m \<le> fst (blockNumberPid s) + 4"
  shows "quiet s (run E s (map BlockNumber ns))"
  using assms
proof (induction ns arbitrary: s)
  case Nil
  show ?case by (simp add: run_def quiet_refl)
next
  case (Cons m ns)
  let ?s1 = "onBlockNumber m s"
  from Cons.prems have "\<not> fst (blockNumberPid s) + 4 < m" by simp
  then have eq: "?s1 = emit (Console LogL [JStr ''blockNumber'', JNum m]) s"
    by (rule onBlockNumber_below)
  have q1: "quiet s ?s1" unfolding eq by (rule quiet_emit) simp
  have "\<forall>k \<in> set ns. k \<le> fst (blockNumberPid ?s1) + 4"
    using Cons.prems q1 by (simp add: quiet_def)
  then have "quiet ?s1 (run E ?s1 (map BlockNumber ns))" by (rule Cons.IH)
  with q1 show ?case by (simp add: run_def quiet_trans)
qed

lemma armed_then_silence:
  assumes "timers sa = [(t, d)]" and "d \<le> now sa + dt"
  shows "refreshCycles (elapse E dt sa) = Suc (refreshCycles sa)"
    and "timers (elapse E dt sa) = []"
    and "trace (elapse E dt sa) = trace sa @ since sa (elapse E dt sa)"
    and "key \<in> set (trackedBalances sa) \<Longrightarrow> balanceTouched E key (since sa (elapse E dt sa))"
    and "map_of (trackedFunctions sa) key = Some e \<Longrightarrow>
           functionTouched E e (since sa (elapse E dt sa))"
proof -
  let ?sb = "sa\<lparr>timers := [], now := max (now sa) d\<rparr>"
  have el: "elapse E dt sa = (updateOnBlock E ?sb)\<lparr>now := now sa + dt\<rparr>"
    by (rule elapse_due [OF assms])
  have si: "since sa (elapse E dt sa) = since ?sb (updateOnBlock E ?sb)"
    by (simp add: el since_def)
  show "refreshCycles (elapse E dt sa) = Suc (refreshCycles sa)"
    using refreshCycles_updateOnBlock [of E ?sb] by (simp add: el refreshCycles_def)
  show "timers (elapse E dt sa) = []"
    by (simp add: el updateOnBlock_frame)
  show "trace (elapse E dt sa) = trace sa @ since sa (elapse E dt sa)"
    unfolding si using trace_updateOnBlock [of E ?sb] by (simp add: el)
  show "balanceTouched E key (since sa (elapse E dt sa))" if "key \<in> set (trackedBalances sa)"
    unfolding si using that by (intro updateOnBlock_balanceTouched) simp
  show "functionTouched E e (since sa (elapse E dt sa))"
    if "map_of (trackedFunctions sa) key = Some e"
    unfolding si using that by (intro updateOnBlock_functionTouched(1) [of _ key]) simp
qed

lemma advance_then_silence:
  assumes "timerInv s" and "fst (blockNumberPid s) + 4 < n" and "500 \<le> dt"
  shows "refreshCycles (elapse E dt (onBlockNumber n s)) = Suc (refreshCycles s)"
    and "timers (elapse E dt (onBlockNumber n s)) = []"
    and "key \<in> set (trackedBalances s) \<Longrightarrow>
           balanceTouched E key (since s (elapse E dt (onBlockNumber n s)))"
    and "map_of (trackedFunctions s) key = Some e \<Longrightarrow>
           functionTouched E e (since s (elapse E dt (onBlockNumber n s)))"
proof -
  let ?sa = "onBlockNumber n s"
  note sa = onBlockNumber_above [OF assms(1,2)]
  have t: "timers ?sa = [(nextTimer s, now s + 500)]" by (simp add: sa)
  have d: "now s + 500 \<le> now ?sa + dt" using assms(3) by (simp add: sa)
  note a = armed_then_silence [OF t d, where E = E]
  have tr: "trace ?sa = trace s @ [Console LogL [JStr ''blockNumber'', JNum n]]"
    by (simp add: sa)
  have sub: "set (since ?sa (elapse E dt ?sa)) \<subseteq> set (since s (elapse E dt ?sa))"
    by (simp add: since_def tr set_drop_subset_set_drop)
  show "refreshCycles (elapse E dt ?sa) = Suc (refreshCycles s)"
    using a(1) by (simp add: refreshCycles_def tr)
  show "timers (elapse E dt ?sa) = []" by (rule a(2))
  show "balanceTouched E key (since s (elapse E dt ?sa))" if "key \<in> set (trackedBalances s)"
  proof -
    from that have "key \<in> set (trackedBalances ?sa)" by (simp add: sa)
    then have "balanceTouched E key (since ?sa (elapse E dt ?sa))" by (rule a(4))
    then show ?thesis using sub by (rule balanceTouched_mono)
  qed
  show "functionTouched E e (since s (elapse E dt ?sa))"
    if "map_of (trackedFunctions s) key = Some e"
  proof -
    from that have "map_of (trackedFunctions ?sa) key = Some e" by (simp add: sa)
    then have "functionTouched E e (since ?sa (elapse E dt ?sa))" by (rule a(5))
    then show ?thesis using sub by (rule functionTouched_mono)
  qed
qed

lemma bump_then_silence:
  assumes "timerInv s" and "500 \<le> dt"
  shows "refreshCycles (elapse E dt (onBlockNumberBump n s)) = Suc (refreshCycles s)"
proof -
  let ?sa = "onBlockNumberBump n s"
  have sa: "?sa = s\<lparr>timers := [(nextTimer s, now s + 500)], nextTimer := Suc (nextTimer s),
             blockNumberPid := (n, Some (nextTimer s))\<rparr>"
    by (simp add: onBlockNumberBump_def arm_timerInv [OF assms(1)])
  have t: "timers ?sa = [(nextTimer s, now s + 500)]" by (simp add: sa)
  have d: "now s + 500 \<le> now ?sa + dt" using assms(2) by (simp add: sa)
  from armed_then_silence(1) [OF t d, where E = E] show ?thesis
    by (simp add: refreshCycles_def sa)
qed

text \<open>
  C6. The subscriber of block-number advances arms a timeout only for a block number
  above \<^verbatim>\<open>lastTarget + 4\<close>: it then cancels the pending timeout, sets a new one due
  in 500 ms and records the block as the target; for any other block number it leaves
  the timeouts and the target as they are. A burst of advances that all stay within 4
  of the target arms nothing and starts no refresh cycle, and with no timeout pending
  before it none starts however long one waits after it. One advance above the
  threshold followed by at least 500 ms of silence starts exactly one refresh cycle,
  which touches every tracked balance and every tracked function, and leaves no
  timeout pending.
\<close>

theorem scheduler_debounce:
  "(timerInv s \<and> fst (blockNumberPid s) + 4 < n \<longrightarrow>
      timers (onBlockNumber n s) = [(nextTimer s, now s + 500)] \<and>
      blockNumberPid (onBlockNumber n s) = (n, Some (nextTimer s)) \<and>
      (\<forall>p \<in> set (timers s). p \<notin> set (timers (onBlockNumber n s)))) \<and>
   (\<not> fst (blockNumberPid s) + 4 < n \<longrightarrow>
      timers (onBlockNumber n s) = timers s \<and> nextTimer (onBlockNumber n s) = nextTimer s \<and>
      blockNumberPid (onBlockNumber n s) = blockNumberPid s \<and>
      refreshCycles (onBlockNumber n s) = refreshCycles s) \<and>
   ((\<forall>m \<in> set ns. m \<le> fst (blockNumberPid s) + 4) \<longrightarrow>
      timers (run E s (map BlockNumber ns)) = timers s \<and>
      nextTimer (run E s (map BlockNumber ns)) = nextTimer s \<and>
      blockNumberPid (run E s (map BlockNumber ns)) = blockNumberPid s \<and>
      refreshCycles (run E s (map BlockNumber ns)) = refreshCycles s \<and>
      (timers s = [] \<longrightarrow>
         refreshCycles (elapse E wait (run E s (map BlockNumber ns))) = refreshCycles s)) \<and>
   (timerInv s \<and> fst (blockNumberPid s) + 4 < n \<and> 500 \<le> dt \<longrightarrow>
      refreshCycles (elapse E dt (onBlockNumber n s)) = Suc (refreshCycles s) \<and>
      timers (elapse E dt (onBlockNumber n s)) = [] \<and>
      (\<forall>key \<in> set (trackedBalances s).
         balanceTouched E key (since s (elapse E dt (onBlockNumber n s)))) \<and>
      (\<forall>key e. map_of (trackedFunctions s) key = Some e \<longrightarrow>
         functionTouched E e (since s (elapse E dt (onBlockNumber n s)))))"
proof -
  have p1: "timerInv s \<and> fst (blockNumberPid s) + 4 < n \<longrightarrow>
      timers (onBlockNumber n s) = [(nextTimer s, now s + 500)] \<and>
      blockNumberPid (onBlockNumber n s) = (n, Some (nextTimer s)) \<and>
      (\<forall>p \<in> set (timers s). p \<notin> set (timers (onBlockNumber n s)))"
  proof (intro impI, elim conjE)
    assume inv: "timerInv s" and above: "fst (blockNumberPid s) + 4 < n"
    have "\<forall>p \<in> set (timers s). fst p \<noteq> nextTimer s"
      using inv by (rule timerInv_cases) simp_all
    then show "timers (onBlockNumber n s) = [(nextTimer s, now s + 500)] \<and>
      blockNumberPid (onBlockNumber n s) = (n, Some (nextTimer s)) \<and>
      (\<forall>p \<in> set (timers s). p \<notin> set (timers (onBlockNumber n s)))"
      by (auto simp: onBlockNumber_above [OF inv above])
  qed
  have p2: "\<not> fst (blockNumberPid s) + 4 < n \<longrightarrow>
      timers (onBlockNumber n s) = timers s \<and> nextTimer (onBlockNumber n s) = nextTimer s \<and>
      blockNumberPid (onBlockNumber n s) = blockNumberPid s \<and>
      refreshCycles (onBlockNumber n s) = refreshCycles s"
    by (simp add: onBlockNumber_below emit_def refreshCycles_def)
  have p3: "(\<forall>m \<in> set ns. m \<le> fst (blockNumberPid s) + 4) \<longrightarrow>
      timers (run E s (map BlockNumber ns)) = timers s \<and>
      nextTimer (run E s (map BlockNumber ns)) = nextTimer s \<and>
      blockNumberPid (run E s (map BlockNumber ns)) = blockNumberPid s \<and>
      refreshCycles (run E s (map BlockNumber ns)) = refreshCycles s \<and>
      (timers s = [] \<longrightarrow>
         refreshCycles (elapse E wait (run E s (map BlockNumber ns))) = refreshCycles s)"
  proof
    assume "\<forall>m \<in> set ns. m \<le> fst (blockNumberPid s) + 4"
    then have q: "quiet s (run E s (map BlockNumber ns))" by (rule burst_quiet)
    let ?s' = "run E s (map BlockNumber ns)"
    have t: "timers ?s' = timers s" using q by (simp add: quiet_def)
    have "refreshCycles (elapse E wait ?s') = refreshCycles s" if "timers s = []"
      using that t refreshCycles_quiet [OF q]
      by (simp add: elapse_idle refreshCycles_def)
    then show "timers ?s' = timers s \<and> nextTimer ?s' = nextTimer s \<and>
      blockNumberPid ?s' = blockNumberPid s \<and> refreshCycles ?s' = refreshCycles s \<and>
      (timers s = [] \<longrightarrow> refreshCycles (elapse E wait ?s') = refreshCycles s)"
      using q refreshCycles_quiet [OF q] by (simp add: quiet_def)
  qed
  have p4: "timerInv s \<and> fst (blockNumberPid s) + 4 < n \<and> 500 \<le> dt \<longrightarrow>
      refreshCycles (elapse E dt (onBlockNumber n s)) = Suc (refreshCycles s) \<and>
      timers (elapse E dt (onBlockNumber n s)) = [] \<and>
      (\<forall>key \<in> set (trackedBalances s).
         balanceTouched E key (since s (elapse E dt (onBlockNumber n s)))) \<and>
      (\<forall>key e. map_of (trackedFunctions s) key = Some e \<longrightarrow>
         functionTouched E e (since s (elapse E dt (onBlockNumber n s))))"
    using advance_then_silence [where s = s and n = n and dt = dt and E = E] by blast
  show ?thesis
    by (rule conjI [OF p1 conjI [OF p2 conjI [OF p3 p4]]])
qed

theorem scheduler_debounce_witness:
  "timers (onBlockNumber 10 sampleTracked) = [(0, 500)] \<and>
   blockNumberPid (onBlockNumber 10 sampleTracked) = (10, Some 0) \<and>
   timers (onBlockNumber 4 sampleTracked) = [] \<and>
   blockNumberPid (onBlockNumber 4 sampleTracked) = (0, None) \<and>
   refreshCycles (elapse sampleEnv 1000 (run sampleEnv sampleTracked (map BlockNumber [1, 2, 4]))) = 0 \<and>
   refreshCycles (elapse sampleEnv 500 (onBlockNumber 10 sampleTracked)) = 1 \<and>
   timers (elapse sampleEnv 500 (onBlockNumber 10 sampleTracked)) = [] \<and>
   balanceTouched sampleEnv ''nokey''
     (since sampleTracked (elapse sampleEnv 500 (onBlockNumber 10 sampleTracked))) \<and>
   balanceTouched sampleEnv (tokenA @ ''.'' @ accountB)
     (since sampleTracked (elapse sampleEnv 500 (onBlockNumber 10 sampleTracked)))"
proof -
  have rc: "refreshCycles sampleTracked = 0"
    by (simp add: refreshCycles_def sampleTracked_scheduler)
  note a = scheduler_debounce [of sampleTracked 10 "[1, 2, 4]" sampleEnv 1000 500]
  note b = scheduler_debounce [of sampleTracked 4 "[]" sampleEnv 0 0]
  from a have a1: "timers (onBlockNumber 10 sampleTracked) = [(0, 500)] \<and>
      blockNumberPid (onBlockNumber 10 sampleTracked) = (10, Some 0)"
    by (simp add: sampleTracked_timerInv sampleTracked_scheduler)
  from b have b1: "timers (onBlockNumber 4 sampleTracked) = [] \<and>
      blockNumberPid (onBlockNumber 4 sampleTracked) = (0, None)"
    by (simp add: sampleTracked_scheduler)
  from a have a3: "refreshCycles (elapse sampleEnv 1000
      (run sampleEnv sampleTracked (map BlockNumber [1, 2, 4]))) = 0"
    by (simp add: sampleTracked_scheduler rc)
  from a have a4: "refreshCycles (elapse sampleEnv 500 (onBlockNumber 10 sampleTracked)) = 1 \<and>
      timers (elapse sampleEnv 500 (onBlockNumber 10 sampleTracked)) = [] \<and>
      balanceTouched sampleEnv ''nokey''
        (since sampleTracked (elapse sampleEnv 500 (onBlockNumber 10 sampleTracked))) \<and>
      balanceTouched sampleEnv (tokenA @ ''.'' @ accountB)
        (since sampleTracked (elapse sampleEnv 500 (onBlockNumber 10 sampleTracked)))"
    by (simp add: sampleTracked_timerInv sampleTracked_scheduler rc)
  from a1 b1 a3 a4 show ?thesis by simp
qed

text \<open>
  C7. A bump arms whatever the block number and the target are: the pending timeout,
  if there is one, is cancelled, a new one is due in 500 ms, and the target is the
  block number of the bump. The cancelled timeout never runs: no refresh cycle starts
  in less than 500 ms after the bump and exactly one when 500 ms have passed. In every
  state the event handlers reach from the loaded module, the only timeout that can be
  pending is the one set last.
\<close>

theorem scheduler_bump:
  assumes "timerInv s"
  shows "timers (onBlockNumberBump n s) = [(nextTimer s, now s + 500)] \<and>
         blockNumberPid (onBlockNumberBump n s) = (n, Some (nextTimer s)) \<and>
         (\<forall>p \<in> set (timers s). p \<notin> set (timers (onBlockNumberBump n s))) \<and>
         timerInv (onBlockNumberBump n s) \<and>
         (dt < 500 \<longrightarrow> refreshCycles (elapse E dt (onBlockNumberBump n s)) = refreshCycles s) \<and>
         (500 \<le> dt \<longrightarrow> refreshCycles (elapse E dt (onBlockNumberBump n s)) = Suc (refreshCycles s)) \<and>
         timerInv (run E (initial store) events)"
proof -
  let ?sa = "onBlockNumberBump n s"
  have sa: "?sa = s\<lparr>timers := [(nextTimer s, now s + 500)], nextTimer := Suc (nextTimer s),
             blockNumberPid := (n, Some (nextTimer s))\<rparr>"
    by (simp add: onBlockNumberBump_def arm_timerInv [OF assms])
  have old: "\<forall>p \<in> set (timers s). fst p \<noteq> nextTimer s"
    using assms by (rule timerInv_cases) simp_all
  have c1: "timers ?sa = [(nextTimer s, now s + 500)]" by (simp add: sa)
  have c2: "blockNumberPid ?sa = (n, Some (nextTimer s))" by (simp add: sa)
  have c3: "\<forall>p \<in> set (timers s). p \<notin> set (timers ?sa)" using old by (auto simp: sa)
  have c4: "timerInv ?sa" using assms by (simp add: onBlockNumberBump_def timerInv_arm)
  have c5: "dt < 500 \<longrightarrow> refreshCycles (elapse E dt ?sa) = refreshCycles s"
  proof
    assume "dt < 500"
    then have "\<not> now s + 500 \<le> now ?sa + dt" by (simp add: sa)
    from elapse_not_due [OF c1 this, of E] show "refreshCycles (elapse E dt ?sa) = refreshCycles s"
      by (simp add: refreshCycles_def sa)
  qed
  have c6: "500 \<le> dt \<longrightarrow> refreshCycles (elapse E dt ?sa) = Suc (refreshCycles s)"
    using bump_then_silence [OF assms] by blast
  have c7: "timerInv (run E (initial store) events)"
    by (rule timerInv_run [OF timerInv_initial])
  from c1 c2 c3 c4 c5 c6 c7 show ?thesis by blast
qed

theorem scheduler_bump_witness:
  "timerInv (onBlockNumber 10 sampleTracked) \<and>
   timers (onBlockNumber 10 sampleTracked) = [(0, 500)] \<and>
   timers (onBlockNumberBump 11 (onBlockNumber 10 sampleTracked)) = [(1, 500)] \<and>
   blockNumberPid (onBlockNumberBump 11 (onBlockNumber 10 sampleTracked)) = (11, Some 1) \<and>
   refreshCycles (elapse sampleEnv 499 (onBlockNumberBump 11 (onBlockNumber 10 sampleTracked))) = 0 \<and>
   refreshCycles (elapse sampleEnv 500 (onBlockNumberBump 11 (onBlockNumber 10 sampleTracked))) = 1"
proof -
  let ?s1 = "onBlockNumber 10 sampleTracked"
  have inv: "timerInv ?s1" by (rule timerInv_onBlockNumber [OF sampleTracked_timerInv])
  have above: "fst (blockNumberPid sampleTracked) + 4 < 10" by (simp add: sampleTracked_scheduler)
  note s1 = onBlockNumber_above [OF sampleTracked_timerInv above]
  have f: "timers ?s1 = [(0, 500)]" "nextTimer ?s1 = 1" "now ?s1 = 0" "refreshCycles ?s1 = 0"
    by (simp_all add: s1 sampleTracked_scheduler refreshCycles_def)
  from scheduler_bump [OF inv, of 11 499 sampleEnv sampleStore "[]"]
  have "timers (onBlockNumberBump 11 ?s1) = [(1, 500)] \<and>
        blockNumberPid (onBlockNumberBump 11 ?s1) = (11, Some 1) \<and>
        refreshCycles (elapse sampleEnv 499 (onBlockNumberBump 11 ?s1)) = 0"
    by (simp add: f)
  moreover from scheduler_bump [OF inv, of 11 500 sampleEnv sampleStore "[]"]
  have "refreshCycles (elapse sampleEnv 500 (onBlockNumberBump 11 ?s1)) = 1"
    by (simp add: f)
  ultimately show ?thesis using inv f(1) by simp
qed

end
